theory Spec2Isabelle
  imports Complex_Main "HOL-Library.AList"
begin

section \<open>Python values and exceptions\<close>

text \<open>
  The script \<^verbatim>\<open>spike_controller.py\<close> is untyped Python; the values it handles are the ones
  \<^verbatim>\<open>json.loads\<close> produces.  Exceptions are values of \<open>py_error\<close>.  A Python \<^verbatim>\<open>str\<close> is a list
  of Unicode code points, a \<^verbatim>\<open>bytes\<close> or \<^verbatim>\<open>bytearray\<close> object a list of 8-bit characters.
  A Python \<^verbatim>\<open>float\<close> is the exact rational value of the double, or one of the three special
  values; the sign of zero is not kept (nothing in the script observes it).  Python's \<^verbatim>\<open>int\<close> is
  unbounded.
\<close>

datatype py_error =
  UnicodeDecodeError | JSONDecodeError | KeyError | IndexError
  | TypeError | ValueError | OverflowError | RecursionError

datatype pyfloat = Finite rat | PosInf | NegInf | NaN

type_synonym pystr = "nat list"

datatype pyval =
  PNone
  | PBool bool
  | PInt int
  | PFloat pyfloat
  | PStr pystr
  | PList "pyval list"
  | PDict "(pystr \<times> pyval) list"

text \<open>A \<^verbatim>\<open>str\<close> literal of the source, written with ASCII characters.\<close>

definition str :: "string \<Rightarrow> pystr" where
  "str s = map of_char s"

text \<open>
  The numeric tower: \<^verbatim>\<open>bool\<close> is a subclass of \<^verbatim>\<open>int\<close> (\<^verbatim>\<open>True == 1\<close>), and Python compares
  \<^verbatim>\<open>int\<close> with \<^verbatim>\<open>float\<close> by exact value.  \<open>numeric_value\<close> is \<open>None\<close> for a value that is not
  a number.
\<close>

fun numeric_value :: "pyval \<Rightarrow> pyfloat option" where
  "numeric_value (PBool b) = Some (Finite (if b then 1 else 0))"
| "numeric_value (PInt n) = Some (Finite (of_int n))"
| "numeric_value (PFloat f) = Some f"
| "numeric_value _ = None"

text \<open>\<^verbatim>\<open>v == n\<close> for an \<^verbatim>\<open>int\<close> literal \<open>n\<close>: never raises, false for a value that is not a number.\<close>

definition py_eq_int :: "pyval \<Rightarrow> int \<Rightarrow> bool" where
  "py_eq_int v n = (case numeric_value v of Some (Finite q) \<Rightarrow> q = of_int n | _ \<Rightarrow> False)"

text \<open>\<^verbatim>\<open>v >= n\<close> and \<^verbatim>\<open>v < n\<close> for an \<^verbatim>\<open>int\<close> \<open>n\<close>: \<^verbatim>\<open>TypeError\<close> for a value that is not a
  number, false for NaN.\<close>

definition py_ge_int :: "pyval \<Rightarrow> int \<Rightarrow> py_error + bool" where
  "py_ge_int v n =
     (case numeric_value v of
        None \<Rightarrow> Inl TypeError
      | Some (Finite q) \<Rightarrow> Inr (q \<ge> of_int n)
      | Some PosInf \<Rightarrow> Inr True
      | Some NegInf \<Rightarrow> Inr False
      | Some NaN \<Rightarrow> Inr False)"

definition py_lt_int :: "pyval \<Rightarrow> int \<Rightarrow> py_error + bool" where
  "py_lt_int v n =
     (case numeric_value v of
        None \<Rightarrow> Inl TypeError
      | Some (Finite q) \<Rightarrow> Inr (q < of_int n)
      | Some PosInf \<Rightarrow> Inr False
      | Some NegInf \<Rightarrow> Inr True
      | Some NaN \<Rightarrow> Inr False)"

section \<open>\<^verbatim>\<open>bytes.decode('utf-8')\<close>\<close>

text \<open>
  \<^verbatim>\<open>line.decode('utf-8')\<close> with the default strict error handling: the code points of a
  well-formed UTF-8 sequence, \<^verbatim>\<open>UnicodeDecodeError\<close> for anything else (a stray or missing
  continuation byte, an overlong form, an encoded surrogate, a value above \<open>0x10FFFF\<close>).
\<close>

definition is_cont :: "char \<Rightarrow> bool" where
  "is_cont b = (0x80 \<le> (of_char b :: nat) \<and> (of_char b :: nat) \<le> 0xBF)"

definition cont_bits :: "char \<Rightarrow> nat" where
  "cont_bits b = of_char b mod 0x40"

fun utf8_decode :: "char list \<Rightarrow> py_error + pystr" where
  "utf8_decode [] = Inr []"
| "utf8_decode (b # bs) =
     (let n = (of_char b :: nat) in
      if n < 0x80 then
        (case utf8_decode bs of Inl e \<Rightarrow> Inl e | Inr cs \<Rightarrow> Inr (n # cs))
      else if 0xC2 \<le> n \<and> n \<le> 0xDF then
        (case bs of
           b1 # r \<Rightarrow>
             if is_cont b1 then
               (case utf8_decode r of
                  Inl e \<Rightarrow> Inl e
                | Inr cs \<Rightarrow> Inr (((n mod 0x20) * 0x40 + cont_bits b1) # cs))
             else Inl UnicodeDecodeError
         | _ \<Rightarrow> Inl UnicodeDecodeError)
      else if 0xE0 \<le> n \<and> n \<le> 0xEF then
        (case bs of
           b1 # b2 # r \<Rightarrow>
             if is_cont b1 \<and> is_cont b2
                \<and> (if n = 0xE0 then 0xA0 \<le> (of_char b1 :: nat) else True)
                \<and> (if n = 0xED then (of_char b1 :: nat) \<le> 0x9F else True) then
               (case utf8_decode r of
                  Inl e \<Rightarrow> Inl e
                | Inr cs \<Rightarrow>
                    Inr ((((n mod 0x10) * 0x40 + cont_bits b1) * 0x40 + cont_bits b2) # cs))
             else Inl UnicodeDecodeError
         | _ \<Rightarrow> Inl UnicodeDecodeError)
      else if 0xF0 \<le> n \<and> n \<le> 0xF4 then
        (case bs of
           b1 # b2 # b3 # r \<Rightarrow>
             if is_cont b1 \<and> is_cont b2 \<and> is_cont b3
                \<and> (if n = 0xF0 then 0x90 \<le> (of_char b1 :: nat) else True)
                \<and> (if n = 0xF4 then (of_char b1 :: nat) \<le> 0x8F else True) then
               (case utf8_decode r of
                  Inl e \<Rightarrow> Inl e
                | Inr cs \<Rightarrow>
                    Inr (((((n mod 0x08) * 0x40 + cont_bits b1) * 0x40 + cont_bits b2) * 0x40
                          + cont_bits b3) # cs))
             else Inl UnicodeDecodeError
         | _ \<Rightarrow> Inl UnicodeDecodeError)
      else Inl UnicodeDecodeError)"

section \<open>\<^verbatim>\<open>json.loads\<close>\<close>

text \<open>
  \<^verbatim>\<open>json.loads\<close> on a \<^verbatim>\<open>str\<close>, with its default options, after the decoder of the standard
  library (\<^verbatim>\<open>json.decoder\<close>, \<^verbatim>\<open>json.scanner\<close>): the functions keep its names.  Every
  syntax error is the one exception \<^verbatim>\<open>JSONDecodeError\<close>.  Two limits of the interpreter
  raise other exceptions: an \<^verbatim>\<open>int\<close> literal of more than \<open>max_str_digits\<close> digits is a
  \<^verbatim>\<open>ValueError\<close>, and an array or object nested deeper than the interpreter allows is a
  \<^verbatim>\<open>RecursionError\<close>.

  The code point of an ASCII character.
\<close>

definition ch :: "char \<Rightarrow> nat" where
  "ch c = of_char c"

text \<open>\<^verbatim>\<open>WHITESPACE\<close>: spaces, tabs, line feeds and carriage returns are skipped.\<close>

definition is_ws :: "nat \<Rightarrow> bool" where
  "is_ws c = (c = 0x20 \<or> c = 0x09 \<or> c = 0x0A \<or> c = 0x0D)"

definition skip_ws :: "pystr \<Rightarrow> pystr" where
  "skip_ws s = dropWhile is_ws s"

definition is_digit :: "nat \<Rightarrow> bool" where
  "is_digit c = (0x30 \<le> c \<and> c \<le> 0x39)"

text \<open>The four hexadecimal digits of a \<^verbatim>\<open>\uXXXX\<close> escape, in either case.\<close>

definition hex_value :: "nat \<Rightarrow> nat option" where
  "hex_value c =
     (if 0x30 \<le> c \<and> c \<le> 0x39 then Some (c - 0x30)
      else if 0x41 \<le> c \<and> c \<le> 0x46 then Some (c - 0x41 + 10)
      else if 0x61 \<le> c \<and> c \<le> 0x66 then Some (c - 0x61 + 10)
      else None)"

definition decode_uXXXX :: "pystr \<Rightarrow> nat option" where
  "decode_uXXXX s =
     (case map hex_value (take 4 s) of
        [Some a, Some b, Some c, Some d] \<Rightarrow> Some (((a * 16 + b) * 16 + c) * 16 + d)
      | _ \<Rightarrow> None)"

text \<open>\<^verbatim>\<open>BACKSLASH\<close>: the one-letter escapes.\<close>

definition backslash :: "nat \<Rightarrow> nat option" where
  \<open>backslash c =
     (if c = ch CHR ''"'' then Some (ch CHR ''"'')
      else if c = 0x5C then Some 0x5C
      else if c = ch CHR ''/'' then Some (ch CHR ''/'')
      else if c = ch CHR ''b'' then Some 0x08
      else if c = ch CHR ''f'' then Some 0x0C
      else if c = ch CHR ''n'' then Some 0x0A
      else if c = ch CHR ''r'' then Some 0x0D
      else if c = ch CHR ''t'' then Some 0x09
      else None)\<close>

definition is_high_surrogate :: "nat \<Rightarrow> bool" where
  "is_high_surrogate c = (0xD800 \<le> c \<and> c \<le> 0xDBFF)"

definition is_low_surrogate :: "nat \<Rightarrow> bool" where
  "is_low_surrogate c = (0xDC00 \<le> c \<and> c \<le> 0xDFFF)"

definition join_surrogates :: "nat \<Rightarrow> nat \<Rightarrow> nat" where
  "join_surrogates hi lo = 0x10000 + (hi - 0xD800) * 0x400 + (lo - 0xDC00)"

text \<open>
  \<^verbatim>\<open>scanstring\<close> (strict), from the character after the opening quote: the string and what
  follows its closing quote.  A control character is refused.  A \<^verbatim>\<open>\uXXXX\<close> escape of a high
  surrogate directly followed by one of a low surrogate is the one character the pair
  encodes.
\<close>

definition cons_char :: "nat \<Rightarrow> py_error + (pystr \<times> pystr) \<Rightarrow> py_error + (pystr \<times> pystr)" where
  "cons_char c r = (case r of Inl e \<Rightarrow> Inl e | Inr (cs, rest) \<Rightarrow> Inr (c # cs, rest))"

fun scanstring :: "pystr \<Rightarrow> py_error + (pystr \<times> pystr)" where
  "scanstring [] = Inl JSONDecodeError"
| \<open>scanstring (c # s) =
     (if c = ch CHR ''"'' then Inr ([], s)
      else if c = 0x5C then
        (case s of
           [] \<Rightarrow> Inl JSONDecodeError
         | esc # s1 \<Rightarrow>
             if esc = ch CHR ''u'' then
               (case decode_uXXXX s1 of
                  None \<Rightarrow> Inl JSONDecodeError
                | Some uni \<Rightarrow>
                    let s2 = drop 4 s1 in
                    if is_high_surrogate uni \<and> 6 < length s2
                       \<and> take 2 s2 = [0x5C, ch CHR ''u''] then
                      (case decode_uXXXX (drop 2 s2) of
                         None \<Rightarrow> Inl JSONDecodeError
                       | Some uni2 \<Rightarrow>
                           if is_low_surrogate uni2
                           then cons_char (join_surrogates uni uni2) (scanstring (drop 6 s2))
                           else cons_char uni (scanstring s2))
                    else cons_char uni (scanstring s2))
             else
               (case backslash esc of
                  None \<Rightarrow> Inl JSONDecodeError
                | Some c' \<Rightarrow> cons_char c' (scanstring s1)))
      else if c < 0x20 then Inl JSONDecodeError
      else cons_char c (scanstring s))\<close>

subsection \<open>Numbers\<close>

text \<open>
  A number with a fraction or an exponent is a \<^verbatim>\<open>float\<close>: the double nearest to the decimal
  value, ties to even, infinite from \<open>2 ^ 1024\<close> on.  \<open>float_of_rat\<close> rounds a rational to 53
  significant bits, or to a multiple of \<open>2 ^ -1074\<close> in the subnormal range.
\<close>

fun bit_length :: "nat \<Rightarrow> nat" where
  "bit_length n = (if n = 0 then 0 else Suc (bit_length (n div 2)))"

definition pow2 :: "int \<Rightarrow> rat" where
  "pow2 k = (if k \<ge> 0 then 2 ^ nat k else 1 / 2 ^ nat (- k))"

definition round_half_even :: "rat \<Rightarrow> int" where
  "round_half_even q =
     (let f = \<lfloor>q\<rfloor>; d = q - of_int f
      in if d < 1 / 2 then f else if 1 / 2 < d then f + 1 else if even f then f else f + 1)"

definition floor_log2 :: "rat \<Rightarrow> int" where
  "floor_log2 a =
     (case quotient_of a of
        (n, d) \<Rightarrow>
          (let k = int (bit_length (nat n)) - int (bit_length (nat d))
           in if pow2 k \<le> a then k else k - 1))"

definition float_of_rat :: "rat \<Rightarrow> pyfloat" where
  "float_of_rat q =
     (if q = 0 then Finite 0
      else
        (let a = \<bar>q\<bar>;
             x = max (floor_log2 a - 52) (- 1074);
             v = of_int (round_half_even (a / pow2 x)) * pow2 x
         in if 2 ^ 1024 \<le> v then (if q < 0 then NegInf else PosInf)
            else Finite (if q < 0 then - v else v)))"

definition digits_value :: "pystr \<Rightarrow> nat" where
  "digits_value ds = foldl (\<lambda>n c. 10 * n + (c - 0x30)) 0 ds"

definition pow10 :: "int \<Rightarrow> rat" where
  "pow10 k = (if k \<ge> 0 then 10 ^ nat k else 1 / 10 ^ nat (- k))"

text \<open>The integer part \<^verbatim>\<open>-?(0|[1-9][0-9]*)\<close>: sign, digits, rest.\<close>

definition match_integer :: "pystr \<Rightarrow> (bool \<times> pystr \<times> pystr) option" where
  "match_integer s =
     (let neg = (take 1 s = [0x2D]);
          s1 = (if neg then drop 1 s else s)
      in case s1 of
           [] \<Rightarrow> None
         | c # r \<Rightarrow>
             if c = 0x30 then Some (neg, [c], r)
             else if is_digit c then Some (neg, takeWhile is_digit s1, dropWhile is_digit s1)
             else None)"

text \<open>The fraction \<^verbatim>\<open>(\.[0-9]+)?\<close>: its digits (empty when there is none), rest.\<close>

definition match_frac :: "pystr \<Rightarrow> pystr \<times> pystr" where
  "match_frac s =
     (case s of
        c # r \<Rightarrow>
          if c = 0x2E \<and> takeWhile is_digit r \<noteq> []
          then (takeWhile is_digit r, dropWhile is_digit r)
          else ([], s)
      | [] \<Rightarrow> ([], s))"

text \<open>The exponent \<^verbatim>\<open>([eE][-+]?[0-9]+)?\<close>: its value when there is one, rest.\<close>

definition match_exp :: "pystr \<Rightarrow> int option \<times> pystr" where
  "match_exp s =
     (case s of
        c # r \<Rightarrow>
          if c = 0x65 \<or> c = 0x45 then
            (let neg = (take 1 r = [0x2D]);
                 r1 = (if take 1 r = [0x2D] \<or> take 1 r = [0x2B] then drop 1 r else r);
                 ds = takeWhile is_digit r1
             in if ds = [] then (None, s)
                else (Some (if neg then - int (digits_value ds) else int (digits_value ds)),
                      dropWhile is_digit r1))
          else (None, s)
      | [] \<Rightarrow> (None, s))"

text \<open>
  The conversion between \<^verbatim>\<open>int\<close> and \<^verbatim>\<open>str\<close> is limited to
  \<^verbatim>\<open>sys.int_info.default_max_str_digits\<close> decimal digits, the sign not counted: \<^verbatim>\<open>int(s)\<close>
  and \<^verbatim>\<open>int.__repr__(n)\<close> raise \<^verbatim>\<open>ValueError\<close> beyond it.  (The script leaves the limit at its
  default.)
\<close>

definition max_str_digits :: nat where
  "max_str_digits = 4300"

text \<open>
  \<^verbatim>\<open>_match_number\<close>: \<open>None\<close> when the text does not start with a number; else the number and
  the rest, or the \<^verbatim>\<open>ValueError\<close> of \<^verbatim>\<open>int(s)\<close> for an integer of too many digits.  A number
  with a fraction or an exponent goes through \<^verbatim>\<open>float(s)\<close>, which has no such limit.
\<close>

definition match_number :: "pystr \<Rightarrow> (py_error + pyval \<times> pystr) option" where
  "match_number s =
     (case match_integer s of
        None \<Rightarrow> None
      | Some (neg, ds, r) \<Rightarrow>
          (case match_frac r of
             (fs, r1) \<Rightarrow>
               (case match_exp r1 of
                  (ex, r2) \<Rightarrow>
                    if fs = [] \<and> ex = None then
                      (if max_str_digits < length ds then Some (Inl ValueError)
                       else
                         Some (Inr (PInt (if neg then - int (digits_value ds)
                                          else int (digits_value ds)), r2)))
                    else
                      (let m = of_nat (digits_value (ds @ fs)) * pow10 (- int (length fs))
                                 * pow10 (case ex of None \<Rightarrow> 0 | Some e \<Rightarrow> e)
                       in Some (Inr (PFloat (float_of_rat (if neg then - m else m)), r2))))))"

subsection \<open>Values\<close>

text \<open>\<^verbatim>\<open>s.startswith(p)\<close>\<close>

definition starts_with :: "pystr \<Rightarrow> pystr \<Rightarrow> bool" where
  "starts_with s p = (take (length p) s = p)"

text \<open>\<^verbatim>\<open>dict(pairs)\<close>: a later pair with the same key replaces the value of the earlier one.\<close>

definition dict_of_pairs :: "(pystr \<times> pyval) list \<Rightarrow> (pystr \<times> pyval) list" where
  "dict_of_pairs ps = foldl (\<lambda>d (k, v). AList.update k v d) [] ps"

text \<open>
  \<^verbatim>\<open>scan_once\<close> reads one value at the start of the text and returns it with the rest.
  \<^verbatim>\<open>parse_array\<close> is the loop of \<^verbatim>\<open>JSONArray\<close>, entered at the first element;
  \<^verbatim>\<open>parse_object\<close> is the loop of \<^verbatim>\<open>JSONObject\<close>, entered after the opening quote of a
  key.

  The first argument is the number of nested arrays and objects the interpreter still
  allows: the scanner enters a recursive call (\<^verbatim>\<open>Py_EnterRecursiveCall\<close>) at every opening
  bracket or brace, and that call raises \<^verbatim>\<open>RecursionError\<close> when the recursion limit is
  used up.  The number depends on the interpreter (its recursion limit, 1000 by default) and
  on the frames in use where \<^verbatim>\<open>json.loads\<close> is called, so the model takes it as a parameter,
  \<open>depth\<close>.

  The tests \<open>length s1 < length s\<close> and \<open>length s3 < length s\<close> serve the termination
  proof; they always hold (\<open>parse_array_loop\<close> and \<open>parse_object_loop\<close> below).
\<close>

function scan_once :: "nat \<Rightarrow> pystr \<Rightarrow> py_error + (pyval \<times> pystr)"
  and parse_array :: "nat \<Rightarrow> pystr \<Rightarrow> py_error + (pyval list \<times> pystr)"
  and parse_object :: "nat \<Rightarrow> pystr \<Rightarrow> py_error + ((pystr \<times> pyval) list \<times> pystr)"
where
  "scan_once depth [] = Inl JSONDecodeError"
| \<open>scan_once depth (c # s) =
     (if c = ch CHR ''"'' then
        (case scanstring s of Inl e \<Rightarrow> Inl e | Inr (v, rest) \<Rightarrow> Inr (PStr v, rest))
      else if c = ch CHR ''{'' then
        (case depth of
           0 \<Rightarrow> Inl RecursionError
         | Suc depth1 \<Rightarrow>
             (case skip_ws s of
                [] \<Rightarrow> Inl JSONDecodeError
              | c1 # s1 \<Rightarrow>
                  if c1 = ch CHR ''}'' then Inr (PDict [], s1)
                  else if c1 = ch CHR ''"'' then
                    (case parse_object depth1 s1 of
                       Inl e \<Rightarrow> Inl e
                     | Inr (pairs, rest) \<Rightarrow> Inr (PDict (dict_of_pairs pairs), rest))
                  else Inl JSONDecodeError))
      else if c = ch CHR ''['' then
        (case depth of
           0 \<Rightarrow> Inl RecursionError
         | Suc depth1 \<Rightarrow>
             (case skip_ws s of
                [] \<Rightarrow> Inl JSONDecodeError
              | c1 # s1 \<Rightarrow>
                  if c1 = ch CHR '']'' then Inr (PList [], s1)
                  else
                    (case parse_array depth1 (c1 # s1) of
                       Inl e \<Rightarrow> Inl e
                     | Inr (vs, rest) \<Rightarrow> Inr (PList vs, rest))))
      else if starts_with (c # s) (str ''null'') then Inr (PNone, drop 3 s)
      else if starts_with (c # s) (str ''true'') then Inr (PBool True, drop 3 s)
      else if starts_with (c # s) (str ''false'') then Inr (PBool False, drop 4 s)
      else
        (case match_number (c # s) of
           Some r \<Rightarrow> r
         | None \<Rightarrow>
             if starts_with (c # s) (str ''NaN'') then Inr (PFloat NaN, drop 2 s)
             else if starts_with (c # s) (str ''Infinity'') then Inr (PFloat PosInf, drop 7 s)
             else if starts_with (c # s) (str ''-Infinity'') then Inr (PFloat NegInf, drop 8 s)
             else Inl JSONDecodeError))\<close>
| \<open>parse_array depth s =
     (case scan_once depth s of
        Inl e \<Rightarrow> Inl e
      | Inr (v, rest) \<Rightarrow>
          (case skip_ws rest of
             [] \<Rightarrow> Inl JSONDecodeError
           | c # s1 \<Rightarrow>
               if c = ch CHR '']'' then Inr ([v], s1)
               else if c = ch CHR '','' \<and> length s1 < length s then
                 (case parse_array depth (skip_ws s1) of
                    Inl e \<Rightarrow> Inl e
                  | Inr (vs, rest') \<Rightarrow> Inr (v # vs, rest'))
               else Inl JSONDecodeError))\<close>
| \<open>parse_object depth s =
     (case scanstring s of
        Inl e \<Rightarrow> Inl e
      | Inr (key, rest) \<Rightarrow>
          (case skip_ws rest of
             [] \<Rightarrow> Inl JSONDecodeError
           | c # s1 \<Rightarrow>
               if c = ch CHR '':'' \<and> length s1 < length s then
                 (case scan_once depth (skip_ws s1) of
                    Inl e \<Rightarrow> Inl e
                  | Inr (v, rest1) \<Rightarrow>
                      (case skip_ws rest1 of
                         [] \<Rightarrow> Inl JSONDecodeError
                       | c2 # s2 \<Rightarrow>
                           if c2 = ch CHR ''}'' then Inr ([(key, v)], s2)
                           else if c2 = ch CHR '','' then
                             (case skip_ws s2 of
                                [] \<Rightarrow> Inl JSONDecodeError
                              | c3 # s3 \<Rightarrow>
                                  if c3 = ch CHR ''"'' \<and> length s3 < length s then
                                    (case parse_object depth s3 of
                                       Inl e \<Rightarrow> Inl e
                                     | Inr (pairs, rest') \<Rightarrow> Inr ((key, v) # pairs, rest'))
                                  else Inl JSONDecodeError)
                           else Inl JSONDecodeError))
               else Inl JSONDecodeError))\<close>
  by pat_completeness auto
termination
proof -
  have ws: "length (skip_ws s) \<le> length s" for s
    by (simp add: skip_ws_def length_dropWhile_le)
  have ws': "length r < length s" if "skip_ws s = c # r" for s c r
    using ws [of s] that by simp
  show ?thesis
  proof (relation "measure (\<lambda>x. case x of
          Inl (d, s) \<Rightarrow> 2 * length s + 1
        | Inr (Inl (d, s)) \<Rightarrow> 2 * length s + 2
        | Inr (Inr (d, s)) \<Rightarrow> 2 * length s + 2)", goal_cases)
    case 1
    show ?case by simp
  next
    case (2 depth c s depth1 c1 s1)
    then show ?case using ws' [of s c1 s1] by simp
  next
    case (3 depth c s depth1 c1 s1)
    then show ?case using ws' [of s c1 s1] by simp
  next
    case (4 depth s)
    show ?case by simp
  next
    case (5 depth s x v rest c s1)
    then show ?case using ws [of s1] by simp
  next
    case (6 depth s x key rest c s1)
    then show ?case using ws [of s1] by simp
  next
    case 7
    then show ?case by simp
  qed
qed

text \<open>
  \<^verbatim>\<open>json.loads(s)\<close>, called where the interpreter allows \<open>depth\<close> nested arrays and
  objects: a leading byte order mark is refused, white space around the value is skipped, and
  nothing else may follow the value.
\<close>

definition json_loads :: "nat \<Rightarrow> pystr \<Rightarrow> py_error + pyval" where
  "json_loads depth s =
     (if starts_with s [0xFEFF] then Inl JSONDecodeError
      else
        (case scan_once depth (skip_ws s) of
           Inl e \<Rightarrow> Inl e
         | Inr (obj, rest) \<Rightarrow> if skip_ws rest = [] then Inr obj else Inl JSONDecodeError))"

section \<open>The edge detector (click logic of \<^verbatim>\<open>monitor_device\<close>, lines 175 to 188)\<close>

text \<open>
  What the monitoring loop does that can be observed: it refreshes the live panel with a force
  value, and it calls \<^verbatim>\<open>pyautogui.click()\<close>.
\<close>

datatype event = Display pyval | Click

text \<open>
  \<^verbatim>\<open>
  if threshold == 1: # Instant press mode
      if is_touched and not is_pressed:
          is_pressed = True
          pyautogui.click()
      elif not is_touched and is_pressed:
          is_pressed = False
  else: # Threshold mode
      if force_value >= threshold and not is_pressed:
          is_pressed = True
          pyautogui.click()
      elif force_value < threshold and is_pressed:
          is_pressed = False
  \<close>
  The result is the new \<^verbatim>\<open>is_pressed\<close> and the events of the step, or the exception a
  comparison raised.
\<close>

definition click_logic :: "int \<Rightarrow> bool \<Rightarrow> pyval \<Rightarrow> bool \<Rightarrow> py_error + (bool \<times> event list)" where
  "click_logic threshold is_pressed force_value is_touched =
     (if threshold = 1 then
        (if is_touched \<and> \<not> is_pressed then Inr (True, [Click])
         else if \<not> is_touched \<and> is_pressed then Inr (False, [])
         else Inr (is_pressed, []))
      else
        (case py_ge_int force_value threshold of
           Inl e \<Rightarrow> Inl e
         | Inr ge \<Rightarrow>
             if ge \<and> \<not> is_pressed then Inr (True, [Click])
             else
               (case py_lt_int force_value threshold of
                  Inl e \<Rightarrow> Inl e
                | Inr lt \<Rightarrow>
                    if lt \<and> is_pressed then Inr (False, [])
                    else Inr (is_pressed, []))))"

text \<open>
  The click logic run over a sequence of readings \<open>(force_value, is_touched)\<close>, one step per
  reading as the loop does: the result is the trajectory of \<^verbatim>\<open>is_pressed\<close> (the state after
  each reading) and, for each reading, whether it clicked.
\<close>

fun run_readings :: "int \<Rightarrow> bool \<Rightarrow> (pyval \<times> bool) list \<Rightarrow> py_error + (bool list \<times> bool list)" where
  "run_readings threshold is_pressed [] = Inr ([], [])"
| "run_readings threshold is_pressed ((force_value, is_touched) # rs) =
     (case click_logic threshold is_pressed force_value is_touched of
        Inl e \<Rightarrow> Inl e
      | Inr (p, evs) \<Rightarrow>
          (case run_readings threshold p rs of
             Inl e \<Rightarrow> Inl e
           | Inr (ps, cs) \<Rightarrow> Inr (p # ps, (Click \<in> set evs) # cs)))"

text \<open>The press condition of each mode.\<close>

definition press_condition :: "int \<Rightarrow> pyval \<times> bool \<Rightarrow> bool" where
  "press_condition threshold r =
     (if threshold = 1 then snd r else py_ge_int (fst r) threshold = Inr True)"

section \<open>The line framer (lines 146 to 157 and 193)\<close>

definition CR :: char where
  "CR = CHR 0x0D"

text \<open>\<^verbatim>\<open>b.split(sep)\<close> for a one-byte separator: one segment more than there are separators.\<close>

fun py_split :: "char \<Rightarrow> char list \<Rightarrow> char list list" where
  "py_split sep [] = [[]]"
| "py_split sep (c # cs) =
     (if c = sep then [] # py_split sep cs
      else (case py_split sep cs of
              [] \<Rightarrow> [[c]]
            | l # ls \<Rightarrow> (c # l) # ls))"

text \<open>\<^verbatim>\<open>b.rfind(sep)\<close> for a one-byte separator: the highest index of it, or \<open>-1\<close>.\<close>

fun py_rfind :: "char \<Rightarrow> char list \<Rightarrow> int" where
  "py_rfind sep [] = -1"
| "py_rfind sep (c # cs) =
     (let r = py_rfind sep cs
      in if r \<ge> 0 then r + 1 else if c = sep then 0 else -1)"

text \<open>\<^verbatim>\<open>sep.join(segments)\<close> for a one-byte separator.\<close>

fun py_join :: "char \<Rightarrow> char list list \<Rightarrow> char list" where
  "py_join sep [] = []"
| "py_join sep [x] = x"
| "py_join sep (x # y # ys) = x @ sep # py_join sep (y # ys)"

text \<open>
  One read of the loop, as far as the buffer goes: the lines handed to the decoder (the
  non-empty ones among \<^verbatim>\<open>lines[:-1]\<close>) and the new buffer.
  \<^verbatim>\<open>
  if not data: continue
  recv_buf.extend(data)
  if b'\r' in recv_buf:
      lines = recv_buf.split(b'\r')
      for line in lines[:-1]:
          if not line: continue
          ...
      recv_buf = recv_buf[recv_buf.rfind(b'\r')+1:]
  \<close>
\<close>

definition frame :: "char list \<Rightarrow> char list \<Rightarrow> char list list \<times> char list" where
  "frame recv_buf data =
     (if data = [] then ([], recv_buf)
      else
        (let buf = recv_buf @ data
         in if CR \<in> set buf then
              (filter (\<lambda>line. line \<noteq> []) (butlast (py_split CR buf)),
               drop (nat (py_rfind CR buf + 1)) buf)
            else ([], buf)))"

text \<open>The framer fed a sequence of chunks, one read each: all lines emitted, in order, and the
  final buffer.\<close>

fun frame_all :: "char list \<Rightarrow> char list list \<Rightarrow> char list list \<times> char list" where
  "frame_all recv_buf [] = ([], recv_buf)"
| "frame_all recv_buf (data # chunks) =
     (case frame recv_buf data of
        (ls, buf) \<Rightarrow> (case frame_all buf chunks of (ls', buf') \<Rightarrow> (ls @ ls', buf')))"

section \<open>The telemetry decoder and the monitoring loop\<close>

text \<open>\<^verbatim>\<open>v[k]\<close> for a \<^verbatim>\<open>str\<close> key.\<close>

definition py_getitem_str :: "pyval \<Rightarrow> pystr \<Rightarrow> py_error + pyval" where
  "py_getitem_str v k =
     (case v of
        PDict d \<Rightarrow> (case map_of d k of None \<Rightarrow> Inl KeyError | Some x \<Rightarrow> Inr x)
      | _ \<Rightarrow> Inl TypeError)"

text \<open>\<^verbatim>\<open>v[i]\<close> for the index 0 or 1.  A \<^verbatim>\<open>dict\<close> made by \<^verbatim>\<open>json.loads\<close> has only \<^verbatim>\<open>str\<close> keys,
  so an \<^verbatim>\<open>int\<close> key is never found.\<close>

definition py_getitem_int :: "pyval \<Rightarrow> nat \<Rightarrow> py_error + pyval" where
  "py_getitem_int v i =
     (case v of
        PList xs \<Rightarrow> if i < length xs then Inr (xs ! i) else Inl IndexError
      | PStr s \<Rightarrow> if i < length s then Inr (PStr [s ! i]) else Inl IndexError
      | PDict d \<Rightarrow> Inl KeyError
      | _ \<Rightarrow> Inl TypeError)"

text \<open>The items \<^verbatim>\<open>for item in v\<close> visits: the characters of a \<^verbatim>\<open>str\<close>, the keys of a
  \<^verbatim>\<open>dict\<close>.\<close>

definition py_iter :: "pyval \<Rightarrow> py_error + pyval list" where
  "py_iter v =
     (case v of
        PList xs \<Rightarrow> Inr xs
      | PStr s \<Rightarrow> Inr (map (\<lambda>c. PStr [c]) s)
      | PDict d \<Rightarrow> Inr (map (\<lambda>kv. PStr (fst kv)) d)
      | _ \<Rightarrow> Inl TypeError)"

text \<open>The exception \<^verbatim>\<open>f"{force_value:.2f}"\<close> raises, if any.  The format needs a number.  An
  \<^verbatim>\<open>int\<close> is converted to a \<^verbatim>\<open>float\<close> first, rounding to nearest, which overflows from
  \<open>2 ^ 1024 - 2 ^ 970\<close> on (half a unit in the last place above the largest double).\<close>

definition format_2f :: "pyval \<Rightarrow> py_error option" where
  "format_2f v =
     (case v of
        PBool b \<Rightarrow> None
      | PInt n \<Rightarrow> if \<bar>n\<bar> < 2 ^ 1024 - 2 ^ 970 then None else Some OverflowError
      | PFloat f \<Rightarrow> None
      | PStr s \<Rightarrow> Some ValueError
      | _ \<Rightarrow> Some TypeError)"

text \<open>
  The state of the loop: the two variables \<^verbatim>\<open>recv_buf\<close> and \<^verbatim>\<open>is_pressed\<close> of the script, and
  the events so far, in order (\<open>trace\<close> is not a variable of the script: it records what the
  loop did).
\<close>

record monitor_state =
  recv_buf :: "char list"
  is_pressed :: bool
  trace :: "event list"

text \<open>
  The reading an item of the payload gives (lines 166 to 168): none when the item is not a
  list or its first element is not 63, else \<^verbatim>\<open>(item[1][0], item[1][1] == 1)\<close>.
  \<^verbatim>\<open>
  if isinstance(item, list) and item[0] == 63:
      force_value = item[1][0]
      is_touched = item[1][1] == 1
  \<close>
\<close>

definition item_reading :: "pyval \<Rightarrow> py_error + (pyval \<times> bool) option" where
  "item_reading item =
     (case item of
        PList xs \<Rightarrow>
          (case py_getitem_int item 0 of
             Inl e \<Rightarrow> Inl e
           | Inr port \<Rightarrow>
               if py_eq_int port 63 then
                 (case py_getitem_int item 1 of
                    Inl e \<Rightarrow> Inl e
                  | Inr v \<Rightarrow>
                      (case py_getitem_int v 0 of
                         Inl e \<Rightarrow> Inl e
                       | Inr force_value \<Rightarrow>
                           (case py_getitem_int v 1 of
                              Inl e \<Rightarrow> Inl e
                            | Inr t \<Rightarrow> Inr (Some (force_value, py_eq_int t 1)))))
               else Inr None)
      | _ \<Rightarrow> Inr None)"

text \<open>
  What the loop does with a reading (lines 170 to 188): it formats the force for the live
  panel, refreshes the panel and runs the click logic.  The result is the state after it and
  the exception that escaped, if any.  (\<^verbatim>\<open>live.update\<close>, \<^verbatim>\<open>pyautogui.click\<close> and
  \<^verbatim>\<open>console.log\<close> are taken not to raise.)
\<close>

definition handle_reading :: "int \<Rightarrow> monitor_state \<Rightarrow> pyval \<Rightarrow> bool \<Rightarrow> monitor_state \<times> py_error option" where
  "handle_reading threshold st force_value is_touched =
     (case format_2f force_value of
        Some e \<Rightarrow> (st, Some e)
      | None \<Rightarrow>
          (let st1 = st\<lparr>trace := trace st @ [Display force_value]\<rparr> in
           case click_logic threshold (is_pressed st1) force_value is_touched of
             Inl e \<Rightarrow> (st1, Some e)
           | Inr (p, evs) \<Rightarrow> (st1\<lparr>is_pressed := p, trace := trace st1 @ evs\<rparr>, None)))"

text \<open>
  The exception the body of \<^verbatim>\<open>for item in message['p']\<close> raises at an item, if any: the one
  of lines 166 to 168, or the one of the format of line 171 (\<open>process_item_raises\<close> below).
\<close>

definition item_raises :: "pyval \<Rightarrow> py_error option" where
  "item_raises item =
     (case item_reading item of
        Inl e \<Rightarrow> Some e
      | Inr None \<Rightarrow> None
      | Inr (Some (force_value, is_touched)) \<Rightarrow> format_2f force_value)"

text \<open>The body of \<^verbatim>\<open>for item in message['p']\<close> (lines 166 to 188).\<close>

definition process_item :: "int \<Rightarrow> monitor_state \<Rightarrow> pyval \<Rightarrow> monitor_state \<times> py_error option" where
  "process_item threshold st item =
     (case item_reading item of
        Inl e \<Rightarrow> (st, Some e)
      | Inr None \<Rightarrow> (st, None)
      | Inr (Some (force_value, is_touched)) \<Rightarrow> handle_reading threshold st force_value is_touched)"

text \<open>\<^verbatim>\<open>for item in message['p']: ...\<close>: an exception ends the loop.\<close>

fun process_items :: "int \<Rightarrow> monitor_state \<Rightarrow> pyval list \<Rightarrow> monitor_state \<times> py_error option" where
  "process_items threshold st [] = (st, None)"
| "process_items threshold st (item # items) =
     (case process_item threshold st item of
        (st1, None) \<Rightarrow> process_items threshold st1 items
      | (st1, Some e) \<Rightarrow> (st1, Some e))"

text \<open>Lines 164 and 165.\<close>

definition process_message :: "int \<Rightarrow> monitor_state \<Rightarrow> pyval \<Rightarrow> monitor_state \<times> py_error option" where
  "process_message threshold st message =
     (case py_getitem_str message (str ''m'') of
        Inl e \<Rightarrow> (st, Some e)
      | Inr m \<Rightarrow>
          if py_eq_int m 0 then
            (case py_getitem_str message (str ''p'') of
               Inl e \<Rightarrow> (st, Some e)
             | Inr p \<Rightarrow>
                 (case py_iter p of
                    Inl e \<Rightarrow> (st, Some e)
                  | Inr items \<Rightarrow> process_items threshold st items))
          else (st, None))"

text \<open>\<^verbatim>\<open>except (json.JSONDecodeError, KeyError, IndexError): pass\<close>\<close>

definition caught_per_line :: "py_error \<Rightarrow> bool" where
  "caught_per_line e = (e = JSONDecodeError \<or> e = KeyError \<or> e = IndexError)"

text \<open>
  The \<^verbatim>\<open>try\<close> statement of lines 158 to 192, for one non-empty line.  \<open>depth\<close> is the number
  of nested arrays and objects the interpreter allows in the call of \<^verbatim>\<open>json.loads\<close> at
  line 159.
\<close>

definition process_line :: "nat \<Rightarrow> int \<Rightarrow> monitor_state \<Rightarrow> char list \<Rightarrow> monitor_state \<times> py_error option" where
  "process_line depth threshold st line =
     (case
        (case utf8_decode line of
           Inl e \<Rightarrow> (st, Some e)
         | Inr text \<Rightarrow>
             (case json_loads depth text of
                Inl e \<Rightarrow> (st, Some e)
              | Inr message \<Rightarrow> process_message threshold st message))
      of
        (st1, None) \<Rightarrow> (st1, None)
      | (st1, Some e) \<Rightarrow> if caught_per_line e then (st1, None) else (st1, Some e))"

fun process_lines :: "nat \<Rightarrow> int \<Rightarrow> monitor_state \<Rightarrow> char list list \<Rightarrow> monitor_state \<times> py_error option" where
  "process_lines depth threshold st [] = (st, None)"
| "process_lines depth threshold st (line # lines) =
     (case process_line depth threshold st line of
        (st1, None) \<Rightarrow> process_lines depth threshold st1 lines
      | (st1, Some e) \<Rightarrow> (st1, Some e))"

text \<open>
  The body of \<^verbatim>\<open>while True\<close> (lines 146 to 193) for a read that returned \<open>data\<close>.  When an
  exception escapes, the buffer has been extended and not yet cut.
\<close>

definition loop_body :: "nat \<Rightarrow> int \<Rightarrow> monitor_state \<Rightarrow> char list \<Rightarrow> monitor_state \<times> py_error option" where
  "loop_body depth threshold st data =
     (case frame (recv_buf st) data of
        (lines, buf) \<Rightarrow>
          (case process_lines depth threshold (st\<lparr>recv_buf := recv_buf st @ data\<rparr>) lines of
             (st1, None) \<Rightarrow> (st1\<lparr>recv_buf := buf\<rparr>, None)
           | (st1, Some e) \<Rightarrow> (st1, Some e)))"

text \<open>What \<^verbatim>\<open>ser.read_until\<close> does: it returns bytes (none on a timeout), or it raises.\<close>

datatype read = Data "char list" | SerialException | KeyboardInterrupt

text \<open>How the monitoring ended: the device was disconnected (line 195), the user interrupted
  (line 198), or another exception reached \<^verbatim>\<open>except Exception\<close> of line 205.\<close>

datatype stop = Disconnected | Interrupted | Unexpected py_error

text \<open>The loop over a finite sequence of reads; \<open>None\<close> when it is still running after them.\<close>

fun monitor_loop :: "nat \<Rightarrow> int \<Rightarrow> monitor_state \<Rightarrow> read list \<Rightarrow> monitor_state \<times> stop option" where
  "monitor_loop depth threshold st [] = (st, None)"
| "monitor_loop depth threshold st (Data data # reads) =
     (case loop_body depth threshold st data of
        (st1, None) \<Rightarrow> monitor_loop depth threshold st1 reads
      | (st1, Some e) \<Rightarrow> (st1, Some (Unexpected e)))"
| "monitor_loop depth threshold st (SerialException # reads) = (st, Some Disconnected)"
| "monitor_loop depth threshold st (KeyboardInterrupt # reads) = (st, Some Interrupted)"

definition monitor_device :: "nat \<Rightarrow> int \<Rightarrow> read list \<Rightarrow> monitor_state \<times> stop option" where
  "monitor_device depth threshold reads =
     monitor_loop depth threshold \<lparr>recv_buf = [], is_pressed = False, trace = []\<rparr> reads"

text \<open>The items line 166 selects: a list whose first element equals 63.\<close>

definition is_port_63 :: "pyval \<Rightarrow> bool" where
  "is_port_63 item = (case item of PList (port # xs) \<Rightarrow> py_eq_int port 63 | _ \<Rightarrow> False)"

text \<open>
  The readings the loop takes from a payload (lines 166 to 168), in order.  The loop ends
  with the first exception: at an item that raises in lines 166 to 168, which gives no
  reading, and after a reading whose force the format of line 171 refuses.  (Once the format
  has accepted the force, the click logic does not raise: \<open>handle_reading_raises\<close> below.)
\<close>

fun items_readings :: "pyval list \<Rightarrow> (pyval \<times> bool) list" where
  "items_readings [] = []"
| "items_readings (item # items) =
     (case item_reading item of
        Inl e \<Rightarrow> []
      | Inr None \<Rightarrow> items_readings items
      | Inr (Some (force_value, is_touched)) \<Rightarrow>
          (force_value, is_touched)
          # (if format_2f force_value = None then items_readings items else []))"

text \<open>
  The payload of a line: the items \<^verbatim>\<open>for item in message['p']\<close> visits (lines 159, 164 and
  165) when the line decodes to a message with \<^verbatim>\<open>m == 0\<close> and a payload that can be
  iterated; \<open>None\<close> when the loop over the payload is not reached.
\<close>

definition line_payload :: "nat \<Rightarrow> char list \<Rightarrow> pyval list option" where
  "line_payload depth line =
     (case utf8_decode line of
        Inl e \<Rightarrow> None
      | Inr text \<Rightarrow>
          (case json_loads depth text of
             Inl e \<Rightarrow> None
           | Inr message \<Rightarrow>
               (case py_getitem_str message (str ''m'') of
                  Inl e \<Rightarrow> None
                | Inr m \<Rightarrow>
                    if py_eq_int m 0 then
                      (case py_getitem_str message (str ''p'') of
                         Inl e \<Rightarrow> None
                       | Inr p \<Rightarrow>
                           (case py_iter p of
                              Inl e \<Rightarrow> None
                            | Inr items \<Rightarrow> Some items))
                    else None)))"

text \<open>
  The readings the loop takes from a line: the steps of lines 159, 164 and 165, then those
  of the payload.
\<close>

definition line_readings :: "nat \<Rightarrow> char list \<Rightarrow> (pyval \<times> bool) list" where
  "line_readings depth line =
     (case utf8_decode line of
        Inl e \<Rightarrow> []
      | Inr text \<Rightarrow>
          (case json_loads depth text of
             Inl e \<Rightarrow> []
           | Inr message \<Rightarrow>
               (case py_getitem_str message (str ''m'') of
                  Inl e \<Rightarrow> []
                | Inr m \<Rightarrow>
                    if py_eq_int m 0 then
                      (case py_getitem_str message (str ''p'') of
                         Inl e \<Rightarrow> []
                       | Inr p \<Rightarrow>
                           (case py_iter p of
                              Inl e \<Rightarrow> []
                            | Inr items \<Rightarrow> items_readings items))
                    else [])))"

section \<open>The config store and the threshold prompt\<close>

subsection \<open>\<^verbatim>\<open>json.dump(config, f, indent=4)\<close>\<close>

text \<open>The lower-case hexadecimal digit of a value below 16, and \<^verbatim>\<open>'{0:04x}'.format(n)\<close> for
  \<open>n\<close> below \<open>0x10000\<close>.\<close>

definition hex_digit :: "nat \<Rightarrow> nat" where
  "hex_digit d = (if d < 10 then 0x30 + d else 0x61 + (d - 10))"

definition hex4 :: "nat \<Rightarrow> pystr" where
  "hex4 n =
     [hex_digit (n div 0x1000 mod 16), hex_digit (n div 0x100 mod 16),
      hex_digit (n div 0x10 mod 16), hex_digit (n mod 16)]"

text \<open>
  \<^verbatim>\<open>encode_basestring_ascii\<close>: a printable ASCII character other than the quote and the
  backslash stands for itself; the others are escaped, one beyond \<open>0xFFFF\<close> as a surrogate
  pair.
\<close>

definition escape_char :: "nat \<Rightarrow> pystr" where
  \<open>escape_char c =
     (if c = ch CHR ''"'' then [0x5C, ch CHR ''"'']
      else if c = 0x5C then [0x5C, 0x5C]
      else if c = 0x0A then [0x5C, ch CHR ''n'']
      else if c = 0x0D then [0x5C, ch CHR ''r'']
      else if c = 0x09 then [0x5C, ch CHR ''t'']
      else if c = 0x08 then [0x5C, ch CHR ''b'']
      else if c = 0x0C then [0x5C, ch CHR ''f'']
      else if 0x20 \<le> c \<and> c \<le> 0x7E then [c]
      else if c < 0x10000 then [0x5C, ch CHR ''u''] @ hex4 c
      else
        [0x5C, ch CHR ''u''] @ hex4 (0xD800 + (c - 0x10000) div 0x400 mod 0x400)
        @ [0x5C, ch CHR ''u''] @ hex4 (0xDC00 + (c - 0x10000) mod 0x400))\<close>

definition encode_str :: "pystr \<Rightarrow> pystr" where
  \<open>encode_str s = [ch CHR ''"''] @ concat (map escape_char s) @ [ch CHR ''"'']\<close>

text \<open>The decimal digits of a number, and of an integer with a minus sign when it is
  negative.\<close>

fun nat_digits :: "nat \<Rightarrow> pystr" where
  "nat_digits n = (if n < 10 then [0x30 + n] else nat_digits (n div 10) @ [0x30 + n mod 10])"

definition int_digits :: "int \<Rightarrow> pystr" where
  "int_digits n = (if n < 0 then 0x2D # nat_digits (nat (- n)) else nat_digits (nat n))"

text \<open>\<^verbatim>\<open>int.__repr__\<close>: \<^verbatim>\<open>ValueError\<close> for a number of more than \<open>max_str_digits\<close> digits.\<close>

definition int_repr :: "int \<Rightarrow> py_error + pystr" where
  "int_repr n =
     (if max_str_digits < length (nat_digits (nat \<bar>n\<bar>)) then Inl ValueError
      else Inr (int_digits n))"

text \<open>
  \<^verbatim>\<open>json.dump(config, f, indent=4)\<close> for
  \<^verbatim>\<open>config = {'serial_number': serial_number, 'trigger_threshold': threshold}\<close>, a \<^verbatim>\<open>str\<close>
  serial number and an \<^verbatim>\<open>int\<close> threshold.  The encoder writes the text to the file piece by
  piece: \<open>config_head\<close> is what it has written when it comes to the threshold, \<open>config_text\<close>
  the whole text.  The result is the text written and the exception raised, if any.
\<close>

definition config_head :: "pystr \<Rightarrow> pystr" where
  \<open>config_head serial_number =
     str ''{'' @ [0x0A]
     @ str ''    "serial_number": '' @ encode_str serial_number @ str '','' @ [0x0A]
     @ str ''    "trigger_threshold": ''\<close>

definition config_text :: "pystr \<Rightarrow> int \<Rightarrow> pystr" where
  \<open>config_text serial_number threshold =
     config_head serial_number @ int_digits threshold @ [0x0A] @ str ''}''\<close>

definition json_dump :: "pystr \<Rightarrow> int \<Rightarrow> pystr \<times> py_error option" where
  "json_dump serial_number threshold =
     (case int_repr threshold of
        Inl e \<Rightarrow> (config_head serial_number, Some e)
      | Inr digits \<Rightarrow> (config_head serial_number @ digits @ [0x0A] @ str ''}'', None))"

subsection \<open>\<^verbatim>\<open>save_config\<close> and \<^verbatim>\<open>load_config\<close>\<close>

text \<open>
  The file \<^verbatim>\<open>spike_config.json\<close> is the only durable state: its text, or \<open>None\<close> when it
  does not exist.  \<^verbatim>\<open>save_config\<close> overwrites it, and does not catch the exception of
  \<^verbatim>\<open>json.dump\<close>: the file then keeps what was written before the exception.  The result is
  the file and the exception that escaped, if any.  \<^verbatim>\<open>load_config\<close> returns \<^verbatim>\<open>{}\<close> when the
  file does not exist and lets the exception of \<^verbatim>\<open>json.load\<close> through; \<open>depth\<close> is the number
  of nested arrays and objects the interpreter allows in that call.
\<close>

type_synonym config_file = "pystr option"

definition save_config :: "pystr \<Rightarrow> int \<Rightarrow> config_file \<times> py_error option" where
  "save_config serial_number threshold =
     (case json_dump serial_number threshold of (text, r) \<Rightarrow> (Some text, r))"

definition load_config :: "nat \<Rightarrow> config_file \<Rightarrow> py_error + pyval" where
  "load_config depth f =
     (case f of None \<Rightarrow> Inr (PDict []) | Some text \<Rightarrow> json_loads depth text)"

subsection \<open>The threshold prompt of \<^verbatim>\<open>main\<close> (lines 106 to 124)\<close>

text \<open>
  \<^verbatim>\<open>IntPrompt.ask\<close> asks until the input is empty or \<^verbatim>\<open>int\<close> converts it (\<^verbatim>\<open>int\<close> refuses a
  text of more than \<open>max_str_digits\<close> digits as it refuses one that is not a number): the
  answer is the integer the user typed, or \<open>None\<close> for the empty input, which gives the
  default.
\<close>

definition ask_threshold :: "pyval \<Rightarrow> int option \<Rightarrow> pyval" where
  "ask_threshold default_threshold answer =
     (case answer of None \<Rightarrow> default_threshold | Some n \<Rightarrow> PInt n)"

text \<open>How \<^verbatim>\<open>main\<close> ends, from line 106 on.\<close>

datatype setup_outcome =
  NoDevice
  | ThresholdNotInt
  | SaveFailed config_file py_error
  | Configured config_file pystr int

text \<open>
  \<^verbatim>\<open>main\<close> from line 106 on, for a loaded config that is a \<^verbatim>\<open>dict\<close> (what \<^verbatim>\<open>load_config\<close>
  returns when the file does not exist or was written by \<^verbatim>\<open>save_config\<close>), the outcome
  \<^verbatim>\<open>(spike_port, serial_number)\<close> of the device selection and the answer to the prompt.
  \<^verbatim>\<open>
  if not spike_port or not serial_number:
      return
  default_threshold = config.get('trigger_threshold', 1)
  trigger_threshold = IntPrompt.ask("Enter trigger threshold", default=default_threshold, ...)
  save_config(serial_number, trigger_threshold)
  monitor_device(spike_port, trigger_threshold)
  \<close>
  \<open>Configured f port threshold\<close> is the file written and the arguments of
  \<^verbatim>\<open>monitor_device\<close>; \<open>SaveFailed f e\<close> is the file left and the exception when
  \<^verbatim>\<open>save_config\<close> raises, which ends \<^verbatim>\<open>main\<close> before the monitoring.  \<^verbatim>\<open>save_config\<close> and
  \<^verbatim>\<open>monitor_device\<close> are modelled for an \<^verbatim>\<open>int\<close> threshold; a default that is not an \<^verbatim>\<open>int\<close>
  (a config file edited by hand) and is accepted is \<open>ThresholdNotInt\<close>, which the model does
  not follow further.
\<close>

definition main_setup :: "(pystr \<times> pyval) list \<Rightarrow> pystr option \<Rightarrow> pystr option \<Rightarrow> int option \<Rightarrow> setup_outcome" where
  "main_setup config spike_port serial_number answer =
     (case (spike_port, serial_number) of
        (Some port, Some serial) \<Rightarrow>
          if port = [] \<or> serial = [] then NoDevice
          else
            (let default_threshold =
                   (case map_of config (str ''trigger_threshold'') of
                      None \<Rightarrow> PInt 1
                    | Some v \<Rightarrow> v);
                 trigger_threshold = ask_threshold default_threshold answer
             in case trigger_threshold of
                  PInt t \<Rightarrow>
                    (case save_config serial t of
                       (f, None) \<Rightarrow> Configured f port t
                     | (f, Some e) \<Rightarrow> SaveFailed f e)
                | _ \<Rightarrow> ThresholdNotInt)
      | _ \<Rightarrow> NoDevice)"

subsection \<open>Well-formed strings\<close>

text \<open>
  A Python \<^verbatim>\<open>str\<close> holds code points below \<open>0x110000\<close>; it may hold surrogates.
  \<open>no_surrogate_pair\<close> says that no high surrogate is directly followed by a low one.
\<close>

fun code_points :: "pystr \<Rightarrow> bool" where
  "code_points [] = True"
| "code_points (c # s) = (c < 0x110000 \<and> code_points s)"

fun no_surrogate_pair :: "pystr \<Rightarrow> bool" where
  "no_surrogate_pair (a # b # s) =
     (\<not> (is_high_surrogate a \<and> is_low_surrogate b) \<and> no_surrogate_pair (b # s))"
| "no_surrogate_pair s = True"


section \<open>Simplifier setup\<close>

text \<open>The recursive equations without patterns are unfolded by hand.\<close>

declare nat_digits.simps [simp del]

declare parse_array.simps [simp del] parse_object.simps [simp del]

section \<open>Properties of the line framer\<close>

lemma py_split_not_Nil: "py_split sep xs \<noteq> []"
  by (induction xs) (auto split: list.splits)

lemma py_split_no_sep: "sep \<notin> set xs \<Longrightarrow> py_split sep xs = [xs]"
  by (induction xs) auto

lemma py_split_Cons:
  "py_split sep (c # cs) =
     (if c = sep then [] # py_split sep cs
      else (c # hd (py_split sep cs)) # tl (py_split sep cs))"
  using py_split_not_Nil [of sep cs] by (auto split: list.splits)

lemma last_py_split_no_sep: "sep \<notin> set (last (py_split sep xs))"
  by (induction xs) (auto simp: py_split_not_Nil split: list.splits)

lemma py_split_append:
  "py_split sep (xs @ ys) =
     butlast (py_split sep xs) @ (last (py_split sep xs) @ hd (py_split sep ys)) # tl (py_split sep ys)"
proof (induction xs)
  case Nil
  show ?case using py_split_not_Nil [of sep ys] by simp
next
  case (Cons c cs)
  show ?case
  proof (cases "c = sep")
    case True
    with Cons show ?thesis by (simp add: py_split_not_Nil)
  next
    case False
    show ?thesis
    proof (cases "butlast (py_split sep cs)")
      case Nil
      then have "py_split sep cs = [last (py_split sep cs)]"
        using py_split_not_Nil [of sep cs]
        by (metis append_butlast_last_id append_Nil)
      then obtain x where x: "py_split sep cs = [x]" by blast
      with False Cons show ?thesis
        by (simp add: py_split_Cons del: py_split.simps)
    next
      case (Cons b bs)
      then have "py_split sep cs = (b # bs) @ [last (py_split sep cs)]"
        using py_split_not_Nil [of sep cs]
        by (metis append_butlast_last_id)
      then obtain l where x: "py_split sep cs = b # bs @ [l]" by auto
      with False Cons.IH show ?thesis
        by (simp add: py_split_Cons del: py_split.simps)
    qed
  qed
qed

lemma py_split_append_last:
  "py_split sep (xs @ ys) = butlast (py_split sep xs) @ py_split sep (last (py_split sep xs) @ ys)"
proof -
  have "py_split sep (last (py_split sep xs)) = [last (py_split sep xs)]"
    by (rule py_split_no_sep) (rule last_py_split_no_sep)
  then have "py_split sep (last (py_split sep xs) @ ys) =
      (last (py_split sep xs) @ hd (py_split sep ys)) # tl (py_split sep ys)"
    by (simp add: py_split_append [of sep "last (py_split sep xs)" ys])
  then show ?thesis
    by (simp add: py_split_append [of sep xs ys])
qed

lemma py_rfind_ge: "py_rfind sep xs \<ge> -1"
  by (induction xs) (auto simp: Let_def)

lemma py_rfind_nonneg_iff: "py_rfind sep xs \<ge> 0 \<longleftrightarrow> sep \<in> set xs"
  by (induction xs) (auto simp: Let_def)

lemma py_split_sep_tl: "sep \<in> set xs \<Longrightarrow> tl (py_split sep xs) \<noteq> []"
  by (induction xs) (auto simp: py_split_not_Nil split: list.splits)

lemma drop_py_rfind: "drop (nat (py_rfind sep xs + 1)) xs = last (py_split sep xs)"
proof (induction xs)
  case Nil
  show ?case by simp
next
  case (Cons c cs)
  show ?case
  proof (cases "sep \<in> set cs")
    case True
    then have r: "py_rfind sep cs \<ge> 0" by (simp add: py_rfind_nonneg_iff)
    then have "drop (nat (py_rfind sep (c # cs) + 1)) (c # cs) = drop (nat (py_rfind sep cs + 1)) cs"
      by (simp add: Let_def nat_add_distrib)
    moreover have "last (py_split sep (c # cs)) = last (py_split sep cs)"
      using py_split_sep_tl [OF True] py_split_not_Nil [of sep cs]
      by (simp add: py_split_Cons last_tl del: py_split.simps)
    ultimately show ?thesis using Cons by simp
  next
    case False
    then have r: "\<not> py_rfind sep cs \<ge> 0" by (simp add: py_rfind_nonneg_iff)
    show ?thesis
    proof (cases "c = sep")
      case True
      with r False show ?thesis by (simp add: Let_def py_split_no_sep)
    next
      case c: False
      with False have "sep \<notin> set (c # cs)" by simp
      then have "py_split sep (c # cs) = [c # cs]" by (rule py_split_no_sep)
      with r c show ?thesis by (simp add: Let_def del: py_split.simps)
    qed
  qed
qed

lemma frame_eq:
  assumes "CR \<notin> set buf"
  shows "frame buf data =
     (filter (\<lambda>line. line \<noteq> []) (butlast (py_split CR (buf @ data))),
      last (py_split CR (buf @ data)))"
proof (cases "CR \<in> set (buf @ data)")
  case True
  then have "data \<noteq> []" using assms by auto
  with True show ?thesis by (simp add: frame_def Let_def drop_py_rfind del: set_append drop_append)
next
  case False
  then have "py_split CR (buf @ data) = [buf @ data]" by (rule py_split_no_sep)
  with False show ?thesis by (simp add: frame_def Let_def)
qed

lemma frame_buffer_no_CR: "CR \<notin> set buf \<Longrightarrow> CR \<notin> set (snd (frame buf data))"
  by (simp add: frame_eq last_py_split_no_sep)

lemma frame_all_eq:
  "CR \<notin> set buf \<Longrightarrow>
   frame_all buf chunks =
     (filter (\<lambda>line. line \<noteq> []) (butlast (py_split CR (buf @ concat chunks))),
      last (py_split CR (buf @ concat chunks)))"
proof (induction chunks arbitrary: buf)
  case Nil
  then show ?case by (simp add: py_split_no_sep)
next
  case (Cons data chunks)
  let ?b = "last (py_split CR (buf @ data))"
  have f: "frame buf data =
      (filter (\<lambda>line. line \<noteq> []) (butlast (py_split CR (buf @ data))), ?b)"
    using Cons.prems by (rule frame_eq)
  have b: "CR \<notin> set ?b" by (rule last_py_split_no_sep)
  have s: "py_split CR (buf @ concat (data # chunks)) =
      butlast (py_split CR (buf @ data)) @ py_split CR (?b @ concat chunks)"
    using py_split_append_last [of CR "buf @ data" "concat chunks"] by simp
  show ?case
    unfolding s using Cons.IH [OF b] f
    by (simp add: butlast_append last_append py_split_not_Nil)
qed

lemma py_join_py_split: "py_join sep (py_split sep xs) = xs"
proof (induction xs)
  case Nil
  show ?case by simp
next
  case (Cons c cs)
  obtain l ls where s: "py_split sep cs = l # ls"
    using py_split_not_Nil [of sep cs] by (cases "py_split sep cs") auto
  with Cons show ?case by (cases ls) auto
qed

lemma py_split_segments_no_sep: "seg \<in> set (py_split sep xs) \<Longrightarrow> sep \<notin> set seg"
  by (induction xs arbitrary: seg) (auto simp: py_split_not_Nil split: list.splits if_splits)

text \<open>
  Claim C2.  Whatever the chunks a byte sequence arrives in (empty chunks included, which
  change nothing), the framer started on the empty buffer emits the non-empty segments
  between carriage returns of the whole sequence, the last segment left out, and ends with
  that last segment (the bytes after the last carriage return) as its buffer; so two ways of
  cutting the same bytes into chunks emit the same lines and leave the same buffer.  The
  segments are those of \<^verbatim>\<open>split\<close>: joined with carriage returns they are the input again.
  The bytes \<^verbatim>\<open>{"a":1}\r{"a":2}\r{"a"\<close> in one chunk give the two lines \<^verbatim>\<open>{"a":1}\<close> and
  \<^verbatim>\<open>{"a":2}\<close> and the buffer \<^verbatim>\<open>{"a"\<close>.
\<close>

theorem framing_independent_of_chunks:
  \<open>frame_all [] chunks =
     (filter (\<lambda>line. line \<noteq> []) (butlast (py_split CR (concat chunks))),
      last (py_split CR (concat chunks)))
   \<and> (concat chunks = concat chunks' \<longrightarrow> frame_all [] chunks = frame_all [] chunks')
   \<and> frame buf [] = ([], buf)
   \<and> py_join CR (py_split CR (concat chunks)) = concat chunks
   \<and> last (py_split CR (concat chunks))
       = drop (nat (py_rfind CR (concat chunks) + 1)) (concat chunks)
   \<and> frame_all [] [''{"a":1}'' @ [CR] @ ''{"a":2}'' @ [CR] @ ''{"a"'']
       = ([''{"a":1}'', ''{"a":2}''], ''{"a"'')\<close>
proof -
  have e: "frame_all [] cs =
      (filter (\<lambda>line. line \<noteq> []) (butlast (py_split CR (concat cs))),
       last (py_split CR (concat cs)))" for cs
    using frame_all_eq [of "[]" cs] by simp
  have ex: \<open>frame_all [] [''{"a":1}'' @ [CR] @ ''{"a":2}'' @ [CR] @ ''{"a"'']
       = ([''{"a":1}'', ''{"a":2}''], ''{"a"'')\<close>
    by code_simp
  have n: "frame buf [] = ([], buf)"
    by (simp add: frame_def)
  have j: "py_join CR (py_split CR (concat chunks)) = concat chunks"
    by (rule py_join_py_split)
  have d: "last (py_split CR (concat chunks))
       = drop (nat (py_rfind CR (concat chunks) + 1)) (concat chunks)"
    by (rule drop_py_rfind [symmetric])
  have i: "concat chunks = concat chunks' \<longrightarrow> frame_all [] chunks = frame_all [] chunks'"
    using e [of chunks] e [of chunks'] by metis
  from e [of chunks] i n j d ex show ?thesis
    by blast
qed

theorem framing_independent_of_chunks_witness:
  \<open>concat [''ab'', [CR], [], ''c''] = concat [''a'', ''b'' @ [CR] @ ''c'']
   \<and> frame_all [] [''ab'', [CR], [], ''c''] = frame_all [] [''a'', ''b'' @ [CR] @ ''c'']
   \<and> frame_all [] [''ab'', [CR], [], ''c''] = ([''ab''], ''c'')\<close>
proof -
  have h: \<open>concat [''ab'', [CR], [], ''c''] = concat [''a'', ''b'' @ [CR] @ ''c'']\<close>
    by simp
  have v: \<open>frame_all [] [''ab'', [CR], [], ''c''] = ([''ab''], ''c'')\<close>
    by code_simp
  from framing_independent_of_chunks
    [of \<open>[''ab'', [CR], [], ''c'']\<close> \<open>[''a'', ''b'' @ [CR] @ ''c'']\<close>] h
  have \<open>frame_all [] [''ab'', [CR], [], ''c''] = frame_all [] [''a'', ''b'' @ [CR] @ ''c'']\<close>
    by blast
  with h v show ?thesis by blast
qed

section \<open>Properties of the edge detector\<close>

lemma click_logic_instant:
  "click_logic 1 p f t = Inr (t, if t \<and> \<not> p then [Click] else [])"
  by (auto simp: click_logic_def)

lemma click_logic_edge:
  "click_logic threshold p f t = Inr (p', evs) \<Longrightarrow> evs = (if \<not> p \<and> p' then [Click] else [])"
  by (auto simp: click_logic_def split: if_splits sum.splits)

lemma click_logic_pressed:
  assumes "press_condition threshold (f, t)"
  shows "click_logic threshold p f t = Inr (True, if p then [] else [Click])"
proof (cases "threshold = 1")
  case True
  with assms show ?thesis by (auto simp: click_logic_def press_condition_def)
next
  case False
  with assms have ge: "py_ge_int f threshold = Inr True"
    by (simp add: press_condition_def)
  then have "py_lt_int f threshold = Inr False"
    by (auto simp: py_ge_int_def py_lt_int_def split: option.splits pyfloat.splits)
  with False ge show ?thesis by (simp add: click_logic_def)
qed

lemma run_readings_held:
  "\<forall>r \<in> set rs. press_condition threshold r \<Longrightarrow>
   run_readings threshold True rs = Inr (replicate (length rs) True, replicate (length rs) False)"
proof (induction rs)
  case Nil
  show ?case by simp
next
  case (Cons r rs)
  obtain f t where r: "r = (f, t)" by (cases r)
  with Cons.prems have "click_logic threshold True f t = Inr (True, [])"
    by (simp add: click_logic_pressed)
  with Cons r show ?case by simp
qed

text \<open>
  Claim C3.  In threshold mode with threshold 5, from the released state, the forces
  3, 5, 6, 4, 5 (whatever the touched flags) click exactly twice, on the 2nd and the 5th
  reading; the state after each reading is released, pressed, pressed, released, pressed.
  The press condition is inclusive: in threshold mode a force equal to the threshold leaves
  the detector pressed, clicking when it was released; a force below it releases.
\<close>

theorem threshold_mode_example:
  "run_readings 5 False [(PInt 3, t1), (PInt 5, t2), (PInt 6, t3), (PInt 4, t4), (PInt 5, t5)]
     = Inr ([False, True, True, False, True], [False, True, False, False, True])
   \<and> (threshold \<noteq> 1 \<longrightarrow>
        click_logic threshold p (PInt threshold) t = Inr (True, if p then [] else [Click]))
   \<and> (threshold \<noteq> 1 \<longrightarrow> click_logic threshold p (PInt (threshold - 1)) t = Inr (False, []))"
  by (simp add: click_logic_def py_ge_int_def py_lt_int_def)

theorem threshold_mode_example_witness:
  "(5::int) \<noteq> 1
   \<and> click_logic 5 False (PInt 5) False = Inr (True, [Click])
   \<and> click_logic 5 True (PInt 5) False = Inr (True, [])
   \<and> click_logic 5 True (PInt 4) False = Inr (False, [])"
  using threshold_mode_example [of False False False False False 5 False False]
    threshold_mode_example [of False False False False False 5 True False]
  by simp

text \<open>
  Claim C4.  In instant mode (threshold 1), from the released state, the touched flags
  false, true, true, false, true (whatever the forces) click exactly twice, on the 2nd and
  the 5th reading.  A touched reading on the released state clicks and presses; a reading
  that is not touched leaves the state released and never clicks.
\<close>

theorem instant_mode_example:
  "run_readings 1 False [(f1, False), (f2, True), (f3, True), (f4, False), (f5, True)]
     = Inr ([False, True, True, False, True], [False, True, False, False, True])
   \<and> click_logic 1 False f True = Inr (True, [Click])
   \<and> click_logic 1 p f False = Inr (False, [])"
  by (simp add: click_logic_instant)

text \<open>
  Claim C5.  In either mode and for every threshold, a non-empty run of readings that all
  satisfy the press condition, started in the released state, clicks exactly once, on its
  first reading, however long it is, and ends pressed.  In every step the events are a single
  click when the state goes from released to pressed, and nothing otherwise.
\<close>

theorem no_double_fire:
  "(rs \<noteq> [] \<and> (\<forall>r \<in> set rs. press_condition threshold r) \<longrightarrow>
      run_readings threshold False rs =
        Inr (replicate (length rs) True, True # replicate (length rs - 1) False))
   \<and> (click_logic threshold p f t = Inr (p', evs) \<longrightarrow>
        evs = (if \<not> p \<and> p' then [Click] else []))"
proof (intro conjI impI)
  assume a: "rs \<noteq> [] \<and> (\<forall>r \<in> set rs. press_condition threshold r)"
  then obtain f t rs' where rs: "rs = (f, t) # rs'" by (cases rs) auto
  with a have c: "click_logic threshold False f t = Inr (True, [Click])"
    by (simp add: click_logic_pressed)
  from a rs have "\<forall>r \<in> set rs'. press_condition threshold r" by simp
  then have "run_readings threshold True rs' =
      Inr (replicate (length rs') True, replicate (length rs') False)"
    by (rule run_readings_held)
  with c rs show "run_readings threshold False rs =
        Inr (replicate (length rs) True, True # replicate (length rs - 1) False)"
    by simp
next
  assume "click_logic threshold p f t = Inr (p', evs)"
  then show "evs = (if \<not> p \<and> p' then [Click] else [])"
    by (rule click_logic_edge)
qed

theorem no_double_fire_witness:
  "press_condition 5 (PInt 7, False)
   \<and> press_condition 5 (PFloat (Finite (11 / 2)), True)
   \<and> press_condition 5 (PInt 5, False)
   \<and> run_readings 5 False [(PInt 7, False), (PFloat (Finite (11 / 2)), True), (PInt 5, False)]
       = Inr ([True, True, True], [True, False, False])
   \<and> click_logic 5 False (PInt 7) False = Inr (True, [Click])"
proof -
  have p: "press_condition 5 (PInt 7, False)"
    "press_condition 5 (PFloat (Finite (11 / 2)), True)"
    "press_condition 5 (PInt 5, False)"
    by (simp_all add: press_condition_def py_ge_int_def)
  have c: "click_logic 5 False (PInt 7) False = Inr (True, [Click])"
    by (simp add: click_logic_def py_ge_int_def)
  from no_double_fire
    [of "[(PInt 7, False), (PFloat (Finite (11 / 2)), True), (PInt 5, False)]" 5
      False "PInt 7" False True "[Click]"] p c
  show ?thesis by simp
qed


section \<open>Evaluating the decoder on concrete lines\<close>

lemma utf8_decode_ascii:
  "(\<And>b. b \<in> set bs \<Longrightarrow> (of_char b :: nat) < 0x80) \<Longrightarrow> utf8_decode bs = Inr (map of_char bs)"
  by (induction bs) (simp_all add: Let_def)

lemma quotient_of_11_2: "quotient_of (11 / 2) = (11, 2)"
  by code_simp

lemma float_of_rat_11_2: "float_of_rat (11 / 2) = Finite (11 / 2)"
  by (simp add: float_of_rat_def floor_log2_def quotient_of_11_2 pow2_def round_half_even_def)

lemma depth_4: "d + 4 = Suc (Suc (Suc (Suc d)))"
  by simp

lemmas json_eval =
  json_loads_def str_def ch_def skip_ws_def is_ws_def starts_with_def match_number_def
  max_str_digits_def
  match_integer_def match_frac_def match_exp_def is_digit_def digits_value_def dict_of_pairs_def
  backslash_def cons_char_def Let_def pow10_def parse_array.simps parse_object.simps

lemmas decoder_eval =
  line_readings_def process_line_def process_message_def process_item_def handle_reading_def
  item_reading_def py_getitem_str_def py_getitem_int_def py_iter_def py_eq_int_def
  format_2f_def click_logic_def py_ge_int_def py_lt_int_def caught_per_line_def

lemmas loop_eval =
  monitor_device_def loop_body_def frame_def CR_def

lemma loads_force_entry:
  \<open>json_loads (d + 4) (map of_char ''{"m":0,"p":[[63,[5.5,1]]]}'')
   = Inr (PDict [(str ''m'', PInt 0),
        (str ''p'', PList [PList [PInt 63, PList [PFloat (Finite (11 / 2)), PInt 1]]])])\<close>
  by (simp add: depth_4 json_eval float_of_rat_11_2)

lemma loads_other_port:
  \<open>json_loads (d + 4) (map of_char ''{"m":0,"p":[[99,[5.5,1]]]}'')
   = Inr (PDict [(str ''m'', PInt 0),
        (str ''p'', PList [PList [PInt 99, PList [PFloat (Finite (11 / 2)), PInt 1]]])])\<close>
  by (simp add: depth_4 json_eval float_of_rat_11_2)

lemma loads_two_entries:
  \<open>json_loads (d + 4) (map of_char ''{"m":0,"p":[[63,[5,1]],[63,[0,0]]]}'')
   = Inr (PDict [(str ''m'', PInt 0),
        (str ''p'', PList [PList [PInt 63, PList [PInt 5, PInt 1]],
                           PList [PInt 63, PList [PInt 0, PInt 0]]])])\<close>
  by (simp add: depth_4 json_eval)

lemma readings_force_entry:
  \<open>line_readings (d + 4) ''{"m":0,"p":[[63,[5.5,1]]]}'' = [(PFloat (Finite (11 / 2)), True)]\<close>
  by (simp add: line_readings_def utf8_decode_ascii loads_force_entry [simplified])
     (simp add: decoder_eval str_def)

lemma readings_other_port:
  \<open>line_readings (d + 4) ''{"m":0,"p":[[99,[5.5,1]]]}'' = []\<close>
  by (simp add: line_readings_def utf8_decode_ascii loads_other_port [simplified])
     (simp add: decoder_eval str_def)

lemma readings_two_entries:
  \<open>line_readings (d + 4) ''{"m":0,"p":[[63,[5,1]],[63,[0,0]]]}'' = [(PInt 5, True), (PInt 0, False)]\<close>
  by (simp add: line_readings_def utf8_decode_ascii loads_two_entries [simplified])
     (simp add: decoder_eval str_def)

lemma process_two_entries:
  \<open>process_line (d + 4) 5 \<lparr>recv_buf = [], is_pressed = False, trace = []\<rparr>
      ''{"m":0,"p":[[63,[5,1]],[63,[0,0]]]}''
   = (\<lparr>recv_buf = [], is_pressed = False,
        trace = [Display (PInt 5), Click, Display (PInt 0)]\<rparr>, None)\<close>
  by (simp add: process_line_def utf8_decode_ascii loads_two_entries [simplified])
     (simp add: decoder_eval str_def)


section \<open>The receive buffer\<close>

lemma handle_reading_recv_buf: "recv_buf (fst (handle_reading threshold st f t)) = recv_buf st"
  by (simp add: handle_reading_def Let_def split: option.splits sum.splits prod.splits)

lemma process_item_recv_buf: "recv_buf (fst (process_item threshold st item)) = recv_buf st"
  by (simp add: process_item_def handle_reading_recv_buf split: sum.splits option.splits prod.splits)

lemma process_items_recv_buf: "recv_buf (fst (process_items threshold st items)) = recv_buf st"
proof (induction items arbitrary: st)
  case Nil
  show ?case by simp
next
  case (Cons item items)
  obtain st1 r where p: "process_item threshold st item = (st1, r)"
    by (cases "process_item threshold st item")
  then have "recv_buf st1 = recv_buf st"
    using process_item_recv_buf [of threshold st item] by simp
  with Cons [of st1] p show ?case by (cases r) simp_all
qed

lemma process_message_recv_buf: "recv_buf (fst (process_message threshold st message)) = recv_buf st"
  by (simp add: process_message_def process_items_recv_buf split: sum.splits)

lemma process_line_recv_buf: "recv_buf (fst (process_line depth threshold st line)) = recv_buf st"
proof -
  obtain st1 r where i: "(case utf8_decode line of
           Inl e \<Rightarrow> (st, Some e)
         | Inr text \<Rightarrow>
             (case json_loads depth text of
                Inl e \<Rightarrow> (st, Some e)
              | Inr message \<Rightarrow> process_message threshold st message)) = (st1, r)"
    by (cases "(case utf8_decode line of
           Inl e \<Rightarrow> (st, Some e)
         | Inr text \<Rightarrow>
             (case json_loads depth text of
                Inl e \<Rightarrow> (st, Some e)
              | Inr message \<Rightarrow> process_message threshold st message))")
  then have "recv_buf st1 = recv_buf st"
    using process_message_recv_buf [of threshold st]
    by (auto split: sum.splits) (metis fst_conv)
  moreover have "fst (process_line depth threshold st line) = st1"
    unfolding process_line_def i by (cases r) simp_all
  ultimately show ?thesis by simp
qed

lemma process_lines_recv_buf: "recv_buf (fst (process_lines depth threshold st lines)) = recv_buf st"
proof (induction lines arbitrary: st)
  case Nil
  show ?case by simp
next
  case (Cons line lines)
  obtain st1 r where p: "process_line depth threshold st line = (st1, r)"
    by (cases "process_line depth threshold st line")
  then have "recv_buf st1 = recv_buf st"
    using process_line_recv_buf [of depth threshold st line] by simp
  with Cons [of st1] p show ?case by (cases r) simp_all
qed

lemma loop_body_recv_buf:
  "loop_body depth threshold st data = (st', None) \<Longrightarrow> recv_buf st' = snd (frame (recv_buf st) data)"
  by (auto simp: loop_body_def split: prod.splits option.splits)

lemma loop_body_no_CR:
  assumes "CR \<notin> set (recv_buf st)" and "loop_body depth threshold st data = (st', None)"
  shows "CR \<notin> set (recv_buf st')"
  using loop_body_recv_buf [OF assms(2)] frame_buffer_no_CR [OF assms(1)] by simp

lemma monitor_loop_no_CR:
  "CR \<notin> set (recv_buf st) \<Longrightarrow> monitor_loop depth threshold st reads = (st', r) \<Longrightarrow>
   (\<And>e. r \<noteq> Some (Unexpected e)) \<Longrightarrow> CR \<notin> set (recv_buf st')"
proof (induction reads arbitrary: st)
  case Nil
  then show ?case by simp
next
  case (Cons rd reads)
  show ?case
  proof (cases rd)
    case (Data data)
    obtain st1 x where b: "loop_body depth threshold st data = (st1, x)"
      by (cases "loop_body depth threshold st data")
    show ?thesis
    proof (cases x)
      case None
      with b Cons.prems(1) have "CR \<notin> set (recv_buf st1)" by (simp add: loop_body_no_CR)
      moreover from b None Data Cons.prems(2)
      have "monitor_loop depth threshold st1 reads = (st', r)" by simp
      ultimately show ?thesis using Cons.IH Cons.prems(3) by blast
    next
      case (Some e)
      with b Data Cons.prems(2) have "r = Some (Unexpected e)" by simp
      with Cons.prems(3) show ?thesis by blast
    qed
  next
    case SerialException
    with Cons.prems show ?thesis by simp
  next
    case KeyboardInterrupt
    with Cons.prems show ?thesis by simp
  qed
qed

lemma monitor_loop_recv_buf:
  "monitor_loop depth threshold st (map Data chunks) = (st', None) \<Longrightarrow>
   recv_buf st' = snd (frame_all (recv_buf st) chunks)"
proof (induction chunks arbitrary: st)
  case Nil
  then show ?case by simp
next
  case (Cons data chunks)
  obtain st1 x where b: "loop_body depth threshold st data = (st1, x)"
    by (cases "loop_body depth threshold st data")
  show ?case
  proof (cases x)
    case None
    with b have r: "recv_buf st1 = snd (frame (recv_buf st) data)" by (simp add: loop_body_recv_buf)
    from b None Cons.prems have "monitor_loop depth threshold st1 (map Data chunks) = (st', None)" by simp
    then have "recv_buf st' = snd (frame_all (recv_buf st1) chunks)" by (rule Cons.IH)
    with r show ?thesis by (simp split: prod.splits)
  next
    case (Some e)
    with b Cons.prems show ?thesis by simp
  qed
qed


section \<open>The readings of a line\<close>

lemma item_reading_entry:
  "item_reading (PList (port # PList (f # t # rest) # rest')) =
     Inr (if py_eq_int port 63 then Some (f, py_eq_int t 1) else None)"
  by (simp add: item_reading_def py_getitem_int_def)

lemma item_reading_not_port_63: "\<not> is_port_63 item \<Longrightarrow> item_reading item = Inr None \<or> item_reading item = Inl IndexError"
  by (auto simp: item_reading_def is_port_63_def py_getitem_int_def split: pyval.splits list.splits)

lemma item_reading_Some_port_63: "item_reading item = Inr (Some r) \<Longrightarrow> is_port_63 item"
  using item_reading_not_port_63 [of item] by auto

lemma item_reading_port_63: "is_port_63 item \<Longrightarrow> item_reading item \<noteq> Inr None"
  by (auto simp: item_reading_def is_port_63_def py_getitem_int_def
      split: pyval.splits list.splits sum.splits if_splits)

text \<open>The format of line 171 accepts numbers only, and the click logic compares any number.\<close>

lemma format_2f_numeric: "format_2f f = None \<Longrightarrow> \<exists>q. numeric_value f = Some q"
  by (cases f) (simp_all add: format_2f_def split: if_splits)


lemma click_logic_total:
  assumes "format_2f f = None"
  shows "\<exists>p' evs. click_logic threshold p f t = Inr (p', evs)"
proof -
  from assms obtain q where "numeric_value f = Some q" using format_2f_numeric by blast
  then show ?thesis
    by (cases q) (auto simp: click_logic_def py_ge_int_def py_lt_int_def)
qed

lemma handle_reading_refused:
  "format_2f f = Some e \<Longrightarrow> handle_reading threshold st f t = (st, Some e)"
  by (simp add: handle_reading_def)

lemma handle_reading_accepted:
  assumes "format_2f f = None"
  shows "\<exists>p evs. handle_reading threshold st f t
           = (st\<lparr>is_pressed := p, trace := trace st @ Display f # evs\<rparr>, None)
         \<and> click_logic threshold (is_pressed st) f t = Inr (p, evs)
         \<and> evs = (if \<not> is_pressed st \<and> p then [Click] else [])"
proof -
  obtain p evs where c: "click_logic threshold (is_pressed st) f t = Inr (p, evs)"
    using click_logic_total [OF assms] by blast
  then have "evs = (if \<not> is_pressed st \<and> p then [Click] else [])" by (rule click_logic_edge)
  with c assms show ?thesis by (simp add: handle_reading_def)
qed

lemma handle_reading_raises: "snd (handle_reading threshold st f t) = format_2f f"
proof (cases "format_2f f")
  case None
  then show ?thesis using handle_reading_accepted [of f threshold st t] by auto
next
  case (Some e)
  then show ?thesis by (simp add: handle_reading_refused)
qed

lemma process_item_raises: "snd (process_item threshold st item) = item_raises item"
  by (simp add: process_item_def item_raises_def handle_reading_raises
      split: sum.splits option.splits prod.splits)

lemma items_readings_length: "length (items_readings items) \<le> length (filter is_port_63 items)"
proof (induction items)
  case Nil
  show ?case by simp
next
  case (Cons item items)
  show ?case
  proof (cases "item_reading item")
    case (Inl e)
    then show ?thesis by simp
  next
    case (Inr x)
    show ?thesis
    proof (cases x)
      case None
      with Inr Cons show ?thesis by simp
    next
      case (Some r)
      with Inr have "is_port_63 item" by (simp add: item_reading_Some_port_63)
      with Inr Some Cons show ?thesis by (cases r) simp
    qed
  qed
qed

lemma items_readings_all:
  "\<forall>item \<in> set items. item_raises item = None \<Longrightarrow>
   map (\<lambda>r. Inr (Some r)) (items_readings items) = map item_reading (filter is_port_63 items)"
proof (induction items)
  case Nil
  show ?case by simp
next
  case (Cons item items)
  then have IH: "map (\<lambda>r. Inr (Some r)) (items_readings items)
      = map item_reading (filter is_port_63 items)"
    and ok: "item_raises item = None" by simp_all
  show ?case
  proof (cases "is_port_63 item")
    case True
    with ok obtain f t where r: "item_reading item = Inr (Some (f, t))" and "format_2f f = None"
      using item_reading_port_63 [of item]
      by (auto simp: item_raises_def split: sum.splits option.splits)
    with True IH show ?thesis by simp
  next
    case False
    with ok have "item_reading item = Inr None"
      using item_reading_Some_port_63 [of item]
      by (auto simp: item_raises_def split: sum.splits option.splits)
    with False IH show ?thesis by simp
  qed
qed

lemma items_readings_stop:
  "item_raises bad \<noteq> None \<Longrightarrow> items_readings (xs @ bad # ys) = items_readings (xs @ [bad])"
  by (induction xs) (auto simp: item_raises_def split: sum.splits option.splits)

lemma process_items_all:
  "\<forall>item \<in> set items. item_raises item = None \<Longrightarrow> snd (process_items threshold st items) = None"
proof (induction items arbitrary: st)
  case Nil
  show ?case by simp
next
  case (Cons item items)
  obtain st1 r where p: "process_item threshold st item = (st1, r)"
    by (cases "process_item threshold st item")
  with Cons.prems have "r = None" using process_item_raises [of threshold st item] by simp
  with p Cons show ?case by simp
qed

lemma process_items_stop:
  "item_raises bad \<noteq> None \<Longrightarrow>
   process_items threshold st (xs @ bad # ys) = process_items threshold st (xs @ [bad])"
proof (induction xs arbitrary: st)
  case Nil
  obtain st1 r where p: "process_item threshold st bad = (st1, r)"
    by (cases "process_item threshold st bad")
  with Nil have "r \<noteq> None" using process_item_raises [of threshold st bad] by simp
  with p show ?case by auto
next
  case (Cons x xs)
  obtain st1 r where p: "process_item threshold st x = (st1, r)"
    by (cases "process_item threshold st x")
  with Cons show ?case by (cases r) simp_all
qed

text \<open>The forces shown on the live panel are those of the readings the format accepts.\<close>

lemma process_item_trace:
  "\<exists>evs. trace (fst (process_item threshold st item)) = trace st @ evs
     \<and> filter (\<lambda>e. e \<noteq> Click) evs
         = (case item_reading item of
              Inr (Some (f, t)) \<Rightarrow> if format_2f f = None then [Display f] else []
            | _ \<Rightarrow> [])"
proof (cases "item_reading item")
  case (Inl e)
  then show ?thesis by (simp add: process_item_def)
next
  case (Inr x)
  show ?thesis
  proof (cases x)
    case None
    with Inr show ?thesis by (simp add: process_item_def)
  next
    case (Some ft)
    obtain f t where ft: "ft = (f, t)" by (cases ft)
    show ?thesis
    proof (cases "format_2f f")
      case None
      then obtain p evs where
        "handle_reading threshold st f t
           = (st\<lparr>is_pressed := p, trace := trace st @ Display f # evs\<rparr>, None)"
        and "evs = (if \<not> is_pressed st \<and> p then [Click] else [])"
        using handle_reading_accepted [of f threshold st t] by blast
      with Inr Some ft None show ?thesis by (simp add: process_item_def)
    next
      case (Some e)
      with Inr \<open>x = Some ft\<close> ft show ?thesis
        by (simp add: process_item_def handle_reading_refused)
    qed
  qed
qed

lemma process_items_trace:
  "\<exists>evs. trace (fst (process_items threshold st items)) = trace st @ evs
     \<and> filter (\<lambda>e. e \<noteq> Click) evs
         = map (\<lambda>r. Display (fst r))
             (filter (\<lambda>r. format_2f (fst r) = None) (items_readings items))"
proof (induction items arbitrary: st)
  case Nil
  show ?case by simp
next
  case (Cons item items)
  obtain st1 r where p: "process_item threshold st item = (st1, r)"
    by (cases "process_item threshold st item")
  then have raises: "r = item_raises item"
    using process_item_raises [of threshold st item] by simp
  from p obtain evs1 where e1: "trace st1 = trace st @ evs1"
    "filter (\<lambda>e. e \<noteq> Click) evs1
       = (case item_reading item of
            Inr (Some (f, t)) \<Rightarrow> if format_2f f = None then [Display f] else []
          | _ \<Rightarrow> [])"
    using process_item_trace [of threshold st item] by auto
  show ?case
  proof (cases r)
    case None
    obtain evs2 where e2: "trace (fst (process_items threshold st1 items)) = trace st1 @ evs2"
      "filter (\<lambda>e. e \<noteq> Click) evs2
         = map (\<lambda>r. Display (fst r))
             (filter (\<lambda>r. format_2f (fst r) = None) (items_readings items))"
      using Cons [of st1] by blast
    from p None e1 e2 have "trace (fst (process_items threshold st (item # items)))
        = trace st @ (evs1 @ evs2)" by simp
    moreover from None raises e1 e2 have "filter (\<lambda>e. e \<noteq> Click) (evs1 @ evs2)
        = map (\<lambda>r. Display (fst r))
            (filter (\<lambda>r. format_2f (fst r) = None) (items_readings (item # items)))"
      by (auto simp: item_raises_def split: sum.splits option.splits)
    ultimately show ?thesis by blast
  next
    case (Some e)
    with p e1 have "trace (fst (process_items threshold st (item # items))) = trace st @ evs1"
      by simp
    moreover from Some raises e1 have "filter (\<lambda>e. e \<noteq> Click) evs1
        = map (\<lambda>r. Display (fst r))
            (filter (\<lambda>r. format_2f (fst r) = None) (items_readings (item # items)))"
      by (auto simp: item_raises_def split: sum.splits option.splits)
    ultimately show ?thesis by blast
  qed
qed

lemma process_line_fst:
  "fst (process_line depth threshold st line) =
     (case utf8_decode line of
        Inl e \<Rightarrow> st
      | Inr decoded \<Rightarrow>
          (case json_loads depth decoded of
             Inl e \<Rightarrow> st
           | Inr message \<Rightarrow> fst (process_message threshold st message)))"
  by (simp add: process_line_def split: sum.splits prod.splits option.splits)

lemma process_line_trace:
  "\<exists>evs. trace (fst (process_line depth threshold st line)) = trace st @ evs
     \<and> filter (\<lambda>e. e \<noteq> Click) evs
         = map (\<lambda>r. Display (fst r))
             (filter (\<lambda>r. format_2f (fst r) = None) (line_readings depth line))"
proof -
  have m: "\<exists>evs. trace (fst (process_message threshold st message)) = trace st @ evs
     \<and> filter (\<lambda>e. e \<noteq> Click) evs
         = map (\<lambda>r. Display (fst r))
             (filter (\<lambda>r. format_2f (fst r) = None)
               (case py_getitem_str message (str ''m'') of
                  Inl e \<Rightarrow> []
                | Inr m \<Rightarrow>
                    if py_eq_int m 0 then
                      (case py_getitem_str message (str ''p'') of
                         Inl e \<Rightarrow> []
                       | Inr p \<Rightarrow>
                           (case py_iter p of
                              Inl e \<Rightarrow> []
                            | Inr items \<Rightarrow> items_readings items))
                    else []))" for message
  proof (cases "py_getitem_str message (str ''m'')")
    case (Inl e)
    then show ?thesis by (simp add: process_message_def)
  next
    case m: (Inr m)
    show ?thesis
    proof (cases "py_eq_int m 0")
      case False
      with m show ?thesis by (simp add: process_message_def)
    next
      case True
      show ?thesis
      proof (cases "py_getitem_str message (str ''p'')")
        case (Inl e)
        with m True show ?thesis by (simp add: process_message_def)
      next
        case p: (Inr p)
        show ?thesis
        proof (cases "py_iter p")
          case (Inl e)
          with m True p show ?thesis by (simp add: process_message_def)
        next
          case (Inr items)
          with m True p process_items_trace [of threshold st items] show ?thesis
            by (simp add: process_message_def)
        qed
      qed
    qed
  qed
  show ?thesis
  proof (cases "utf8_decode line")
    case (Inl e)
    then show ?thesis by (simp add: process_line_fst line_readings_def)
  next
    case dec: (Inr decoded)
    show ?thesis
    proof (cases "json_loads depth decoded")
      case (Inl e)
      with dec show ?thesis by (simp add: process_line_fst line_readings_def)
    next
      case (Inr message)
      with dec have f: "fst (process_line depth threshold st line)
          = fst (process_message threshold st message)"
        by (simp add: process_line_fst)
      from dec Inr have l: "line_readings depth line =
          (case py_getitem_str message (str ''m'') of
             Inl e \<Rightarrow> []
           | Inr m \<Rightarrow>
               if py_eq_int m 0 then
                 (case py_getitem_str message (str ''p'') of
                    Inl e \<Rightarrow> []
                  | Inr p \<Rightarrow>
                      (case py_iter p of
                         Inl e \<Rightarrow> []
                       | Inr items \<Rightarrow> items_readings items))
               else [])"
        by (simp add: line_readings_def)
      show ?thesis unfolding f l by (rule m)
    qed
  qed
qed

lemma line_readings_payload:
  "line_readings depth line
     = (case line_payload depth line of None \<Rightarrow> [] | Some items \<Rightarrow> items_readings items)"
  by (simp add: line_readings_def line_payload_def split: sum.splits)



text \<open>
  The loop over a payload whose entries do not raise is the click logic run over its
  readings, one step per reading, each after a refresh of the panel.
\<close>

lemma process_items_run_readings:
  assumes "\<forall>item \<in> set items. item_raises item = None"
  shows "\<exists>ps cs. run_readings threshold (is_pressed st) (items_readings items) = Inr (ps, cs)
     \<and> is_pressed (fst (process_items threshold st items)) = last (is_pressed st # ps)
     \<and> trace (fst (process_items threshold st items))
         = trace st @ concat (map (\<lambda>(r, c). Display (fst r) # (if c then [Click] else []))
                              (zip (items_readings items) cs))"
  using assms
proof (induction items arbitrary: st)
  case Nil
  show ?case by simp
next
  case (Cons item items)
  then have ok: "item_raises item = None" and oks: "\<forall>item \<in> set items. item_raises item = None"
    by simp_all
  show ?case
  proof (cases "item_reading item")
    case (Inl e)
    with ok show ?thesis by (simp add: item_raises_def)
  next
    case (Inr x)
    show ?thesis
    proof (cases x)
      case None
      with Inr Cons.IH [OF oks, of st] show ?thesis by (simp add: process_item_def)
    next
      case (Some ft)
      obtain f t where ft: "ft = (f, t)" by (cases ft)
      with ok Inr Some have fm: "format_2f f = None" by (simp add: item_raises_def)
      then obtain p evs where
        h: "handle_reading threshold st f t
           = (st\<lparr>is_pressed := p, trace := trace st @ Display f # evs\<rparr>, None)"
        and c: "click_logic threshold (is_pressed st) f t = Inr (p, evs)"
        and e: "evs = (if \<not> is_pressed st \<and> p then [Click] else [])"
        using handle_reading_accepted [of f threshold st t] by blast
      let ?st1 = "st\<lparr>is_pressed := p, trace := trace st @ Display f # evs\<rparr>"
      from Cons.IH [OF oks, of ?st1] obtain ps cs where
        r: "run_readings threshold p (items_readings items) = Inr (ps, cs)"
        and s: "is_pressed (fst (process_items threshold ?st1 items)) = last (p # ps)"
        and tr: "trace (fst (process_items threshold ?st1 items))
           = trace ?st1 @ concat (map (\<lambda>(r, c). Display (fst r) # (if c then [Click] else []))
                                  (zip (items_readings items) cs))"
        by auto
      have p: "process_items threshold st (item # items) = process_items threshold ?st1 items"
        using Inr Some ft h by (simp add: process_item_def)
      have i: "items_readings (item # items) = (f, t) # items_readings items"
        using Inr Some ft fm by simp
      have rr: "run_readings threshold (is_pressed st) ((f, t) # items_readings items)
          = Inr (p # ps, (Click \<in> set evs) # cs)"
        using c r by simp
      show ?thesis
        unfolding p i rr using s tr e by (auto simp del: process_items.simps)
    qed
  qed
qed

section \<open>Instant mode in the loop\<close>














section \<open>Claims about the decoder and the loop\<close>

text \<open>
  Claim C1.  The claim says that no decoding failure ends the monitoring loop.  The code
  catches \<^verbatim>\<open>json.JSONDecodeError\<close>, \<^verbatim>\<open>KeyError\<close> and \<^verbatim>\<open>IndexError\<close> only: a line that is
  not UTF-8 raises \<^verbatim>\<open>UnicodeDecodeError\<close>, and a well-formed JSON text that is not an
  object (here \<^verbatim>\<open>[1]\<close>) raises \<^verbatim>\<open>TypeError\<close>; either one leaves the loop through
  \<^verbatim>\<open>except Exception\<close> of line 205, and the reads that follow are never made.  (The first
  holds whatever nesting the interpreter allows, the second when it allows the one array.)
\<close>

theorem decode_failure_ends_monitoring:
  \<open>monitor_device depth 5 [Data [CHR 0xFF, CR], Data (''{"m":0,"p":[[63,[7,1]]]}'' @ [CR])]
     = (\<lparr>recv_buf = [CHR 0xFF, CR], is_pressed = False, trace = []\<rparr>,
        Some (Unexpected UnicodeDecodeError))
   \<and> monitor_device (Suc depth) 5 [Data (''[1]'' @ [CR])]
     = (\<lparr>recv_buf = ''[1]'' @ [CR], is_pressed = False, trace = []\<rparr>,
        Some (Unexpected TypeError))\<close>
proof
  show \<open>monitor_device depth 5 [Data [CHR 0xFF, CR], Data (''{"m":0,"p":[[63,[7,1]]]}'' @ [CR])]
     = (\<lparr>recv_buf = [CHR 0xFF, CR], is_pressed = False, trace = []\<rparr>,
        Some (Unexpected UnicodeDecodeError))\<close>
    by (simp add: loop_eval process_line_def Let_def caught_per_line_def)
  show \<open>monitor_device (Suc depth) 5 [Data (''[1]'' @ [CR])]
     = (\<lparr>recv_buf = ''[1]'' @ [CR], is_pressed = False, trace = []\<rparr>,
        Some (Unexpected TypeError))\<close>
    by (simp add: loop_eval process_line_def Let_def json_eval decoder_eval)
qed

text \<open>
  Claim C6.  An iteration of the loop that ends (no exception escaped) on a buffer without a
  carriage return leaves a buffer without one: the bytes after the last carriage return of
  the old buffer followed by the chunk read.  So, from the empty buffer of the start, the
  buffer has no carriage return after any sequence of reads, as long as no unexpected
  exception has ended the loop; after the chunks read it is what follows the last carriage
  return in them.
\<close>

theorem receive_buffer_invariant:
  "(CR \<notin> set (recv_buf st) \<and> loop_body depth threshold st data = (st1, None) \<longrightarrow>
      CR \<notin> set (recv_buf st1) \<and> recv_buf st1 = last (py_split CR (recv_buf st @ data)))
   \<and> (monitor_device depth threshold reads = (st2, r) \<and> (\<forall>e. r \<noteq> Some (Unexpected e)) \<longrightarrow>
      CR \<notin> set (recv_buf st2))
   \<and> (monitor_device depth threshold (map Data chunks) = (st3, None) \<longrightarrow>
      recv_buf st3 = last (py_split CR (concat chunks)))
   \<and> recv_buf (fst (monitor_device depth threshold [])) = []"
proof (intro conjI impI)
  assume a: "CR \<notin> set (recv_buf st) \<and> loop_body depth threshold st data = (st1, None)"
  then show "CR \<notin> set (recv_buf st1)" using loop_body_no_CR by blast
  from a have "recv_buf st1 = snd (frame (recv_buf st) data)" using loop_body_recv_buf by blast
  with a show "recv_buf st1 = last (py_split CR (recv_buf st @ data))" by (simp add: frame_eq)
next
  assume a: "monitor_device depth threshold reads = (st2, r) \<and> (\<forall>e. r \<noteq> Some (Unexpected e))"
  have "CR \<notin> set (recv_buf \<lparr>recv_buf = [], is_pressed = False, trace = []\<rparr>)" by simp
  moreover from a have
    "monitor_loop depth threshold \<lparr>recv_buf = [], is_pressed = False, trace = []\<rparr> reads = (st2, r)"
    by (simp add: monitor_device_def)
  ultimately show "CR \<notin> set (recv_buf st2)" using a monitor_loop_no_CR by blast
next
  assume "monitor_device depth threshold (map Data chunks) = (st3, None)"
  then have "recv_buf st3 = snd (frame_all [] chunks)"
    using monitor_loop_recv_buf
      [of depth threshold "\<lparr>recv_buf = [], is_pressed = False, trace = []\<rparr>"]
    by (simp add: monitor_device_def)
  then show "recv_buf st3 = last (py_split CR (concat chunks))"
    using frame_all_eq [of "[]" chunks] by simp
next
  show "recv_buf (fst (monitor_device depth threshold [])) = []"
    by (simp add: monitor_device_def)
qed

theorem receive_buffer_invariant_witness:
  \<open>CR \<notin> set (recv_buf \<lparr>recv_buf = ''{"'', is_pressed = False, trace = []\<rparr>)
   \<and> loop_body 990 5 \<lparr>recv_buf = ''{"'', is_pressed = False, trace = []\<rparr> (''m'' @ [CR] @ ''{"m'')
       = (\<lparr>recv_buf = ''{"m'', is_pressed = False, trace = []\<rparr>, None)
   \<and> CR \<notin> set (recv_buf \<lparr>recv_buf = ''{"m'', is_pressed = False, trace = []\<rparr>)
   \<and> monitor_device 990 5 (map Data [''x'', [CR] @ ''{"m'']) =
        (\<lparr>recv_buf = ''{"m'', is_pressed = False, trace = []\<rparr>, None)
   \<and> ''{"m'' = last (py_split CR (concat [''x'', [CR] @ ''{"m'']))\<close>
proof -
  have h1: \<open>CR \<notin> set (recv_buf \<lparr>recv_buf = ''{"'', is_pressed = False, trace = []\<rparr>)
     \<and> loop_body 990 5 \<lparr>recv_buf = ''{"'', is_pressed = False, trace = []\<rparr> (''m'' @ [CR] @ ''{"m'')
       = (\<lparr>recv_buf = ''{"m'', is_pressed = False, trace = []\<rparr>, None)\<close>
    by (simp add: loop_eval process_line_def Let_def json_eval decoder_eval)
  have h2: \<open>monitor_device 990 5 (map Data [''x'', [CR] @ ''{"m'']) =
        (\<lparr>recv_buf = ''{"m'', is_pressed = False, trace = []\<rparr>, None)\<close>
    by (simp add: loop_eval process_line_def Let_def json_eval decoder_eval)
  from receive_buffer_invariant
    [of \<open>\<lparr>recv_buf = ''{"'', is_pressed = False, trace = []\<rparr>\<close> 990 5 \<open>''m'' @ [CR] @ ''{"m''\<close>
      \<open>\<lparr>recv_buf = ''{"m'', is_pressed = False, trace = []\<rparr>\<close> \<open>map Data [''x'', [CR] @ ''{"m'']\<close>
      \<open>\<lparr>recv_buf = ''{"m'', is_pressed = False, trace = []\<rparr>\<close> None \<open>[''x'', [CR] @ ''{"m'']\<close>
      \<open>\<lparr>recv_buf = ''{"m'', is_pressed = False, trace = []\<rparr>\<close>]
    h1 h2
  show ?thesis by simp
qed

text \<open>
  Claim C7, as stated, fails: the loop has no \<^verbatim>\<open>break\<close>, so a message with two payload
  entries whose first element is 63 gives two readings, both handled.
\<close>

theorem decoder_two_readings_counterexample:
  \<open>line_readings 990 ''{"m":0,"p":[[63,[5,1]],[63,[0,0]]]}''
     = [(PInt 5, True), (PInt 0, False)]
   \<and> \<not> length (line_readings 990 ''{"m":0,"p":[[63,[5,1]],[63,[0,0]]]}'') \<le> 1
   \<and> process_line 990 5 \<lparr>recv_buf = [], is_pressed = False, trace = []\<rparr>
        ''{"m":0,"p":[[63,[5,1]],[63,[0,0]]]}''
     = (\<lparr>recv_buf = [], is_pressed = False,
          trace = [Display (PInt 5), Click, Display (PInt 0)]\<rparr>, None)\<close>
  using readings_two_entries [of 986] process_two_entries [of 986] by simp

text \<open>
  Claim C7, amended.  For a line that decodes to a message with \<^verbatim>\<open>m == 0\<close> and a list
  payload, the loop takes one reading from each payload entry that is a list with first
  element 63, in payload order, as long as no entry raises: the readings are exactly those of
  the entries with 63, as many as there are such entries, and the loop ends without an
  exception, having refreshed the panel with the force of each reading and run the click
  logic on each reading, in order.  An entry that raises (in lines 166 to 168, or in the
  format of line 171) ends the loop: the entries after it are not looked at.  In every case
  there are no more readings than entries with 63.  The reading of an entry
  \<^verbatim>\<open>[port, [force, touched, ...], ...]\<close> is \<open>(force, touched == 1)\<close> when \<open>port == 63\<close>, and
  there is none otherwise.  For every line, the forces shown on the live panel are those of
  the readings of the line that the format accepts, in order, and every other event is a
  click.  The line \<^verbatim>\<open>{"m":0,"p":[[63,[5.5,1]]]}\<close> gives the one reading (5.5, true), and
  \<^verbatim>\<open>{"m":0,"p":[[99,[5.5,1]]]}\<close> gives none (where the interpreter allows the four levels of
  nesting of these lines).
\<close>

theorem decoder_readings:
  \<open>(\<exists>evs. trace (fst (process_line depth threshold st line)) = trace st @ evs
       \<and> filter (\<lambda>e. e \<noteq> Click) evs
           = map (\<lambda>r. Display (fst r))
               (filter (\<lambda>r. format_2f (fst r) = None) (line_readings depth line)))
   \<and> (utf8_decode line = Inr decoded \<and> json_loads depth decoded = Inr (PDict d)
        \<and> map_of d (str ''m'') = Some m \<and> py_eq_int m 0
        \<and> map_of d (str ''p'') = Some (PList items) \<longrightarrow>
      line_readings depth line = items_readings items)
   \<and> ((\<forall>item \<in> set items. item_raises item = None) \<longrightarrow>
      map (\<lambda>r. Inr (Some r)) (items_readings items) = map item_reading (filter is_port_63 items)
      \<and> length (items_readings items) = length (filter is_port_63 items)
      \<and> snd (process_items threshold st items) = None
      \<and> (\<exists>ps cs. run_readings threshold (is_pressed st) (items_readings items) = Inr (ps, cs)
            \<and> is_pressed (fst (process_items threshold st items)) = last (is_pressed st # ps)
            \<and> trace (fst (process_items threshold st items))
                = trace st @ concat (map (\<lambda>(r, c). Display (fst r) # (if c then [Click] else []))
                                     (zip (items_readings items) cs))))
   \<and> (item_raises bad \<noteq> None \<longrightarrow>
      items_readings (items @ bad # later) = items_readings (items @ [bad])
      \<and> process_items threshold st (items @ bad # later)
          = process_items threshold st (items @ [bad]))
   \<and> length (items_readings items) \<le> length (filter is_port_63 items)
   \<and> snd (process_item threshold st item) = item_raises item
   \<and> item_reading (PList (port # PList (f # t # rest) # rest'))
       = Inr (if py_eq_int port 63 then Some (f, py_eq_int t 1) else None)
   \<and> line_readings (n + 4) ''{"m":0,"p":[[63,[5.5,1]]]}'' = [(PFloat (Finite (11 / 2)), True)]
   \<and> line_readings (n + 4) ''{"m":0,"p":[[99,[5.5,1]]]}'' = []\<close>
proof (intro conjI impI)
  show "\<exists>evs. trace (fst (process_line depth threshold st line)) = trace st @ evs
       \<and> filter (\<lambda>e. e \<noteq> Click) evs
           = map (\<lambda>r. Display (fst r))
               (filter (\<lambda>r. format_2f (fst r) = None) (line_readings depth line))"
    by (rule process_line_trace)
next
  assume "utf8_decode line = Inr decoded \<and> json_loads depth decoded = Inr (PDict d)
        \<and> map_of d (str ''m'') = Some m \<and> py_eq_int m 0
        \<and> map_of d (str ''p'') = Some (PList items)"
  then show "line_readings depth line = items_readings items"
    by (simp add: line_readings_def py_getitem_str_def py_iter_def)
next
  assume a: "\<forall>item \<in> set items. item_raises item = None"
  from a show all: "map (\<lambda>r. Inr (Some r)) (items_readings items)
      = map item_reading (filter is_port_63 items)"
    by (rule items_readings_all)
  from arg_cong [OF all, of length]
  show "length (items_readings items) = length (filter is_port_63 items)" by simp
  from a show "snd (process_items threshold st items) = None" by (rule process_items_all)
  from a show "\<exists>ps cs. run_readings threshold (is_pressed st) (items_readings items) = Inr (ps, cs)
            \<and> is_pressed (fst (process_items threshold st items)) = last (is_pressed st # ps)
            \<and> trace (fst (process_items threshold st items))
                = trace st @ concat (map (\<lambda>(r, c). Display (fst r) # (if c then [Click] else []))
                                     (zip (items_readings items) cs))"
    by (rule process_items_run_readings)
next
  assume a: "item_raises bad \<noteq> None"
  then show "items_readings (items @ bad # later) = items_readings (items @ [bad])"
    by (rule items_readings_stop)
  from a show "process_items threshold st (items @ bad # later)
      = process_items threshold st (items @ [bad])"
    by (rule process_items_stop)
next
  show "length (items_readings items) \<le> length (filter is_port_63 items)"
    by (rule items_readings_length)
next
  show "snd (process_item threshold st item) = item_raises item"
    by (rule process_item_raises)
next
  show "item_reading (PList (port # PList (f # t # rest) # rest'))
       = Inr (if py_eq_int port 63 then Some (f, py_eq_int t 1) else None)"
    by (rule item_reading_entry)
next
  show \<open>line_readings (n + 4) ''{"m":0,"p":[[63,[5.5,1]]]}'' = [(PFloat (Finite (11 / 2)), True)]\<close>
    by (rule readings_force_entry)
next
  show \<open>line_readings (n + 4) ''{"m":0,"p":[[99,[5.5,1]]]}'' = []\<close>
    by (rule readings_other_port)
qed

theorem decoder_readings_witness:
  \<open>utf8_decode ''{"m":0,"p":[[63,[5,1]],[63,[0,0]]]}''
       = Inr (map of_char ''{"m":0,"p":[[63,[5,1]],[63,[0,0]]]}'')
   \<and> json_loads 990 (map of_char ''{"m":0,"p":[[63,[5,1]],[63,[0,0]]]}'')
       = Inr (PDict [(str ''m'', PInt 0),
           (str ''p'', PList [PList [PInt 63, PList [PInt 5, PInt 1]],
                              PList [PInt 63, PList [PInt 0, PInt 0]]])])
   \<and> map_of [(str ''m'', PInt 0),
           (str ''p'', PList [PList [PInt 63, PList [PInt 5, PInt 1]],
                              PList [PInt 63, PList [PInt 0, PInt 0]]])]
         (str ''m'') = Some (PInt 0)
   \<and> py_eq_int (PInt 0) 0
   \<and> map_of [(str ''m'', PInt 0),
           (str ''p'', PList [PList [PInt 63, PList [PInt 5, PInt 1]],
                              PList [PInt 63, PList [PInt 0, PInt 0]]])]
         (str ''p'') = Some (PList [PList [PInt 63, PList [PInt 5, PInt 1]],
                                    PList [PInt 63, PList [PInt 0, PInt 0]]])
   \<and> line_readings 990 ''{"m":0,"p":[[63,[5,1]],[63,[0,0]]]}''
       = items_readings [PList [PInt 63, PList [PInt 5, PInt 1]],
                         PList [PInt 63, PList [PInt 0, PInt 0]]]
   \<and> item_raises (PList [PInt 63, PList [PInt 5, PInt 1]]) = None
   \<and> item_raises (PList [PInt 63, PList [PInt 0, PInt 0]]) = None
   \<and> items_readings [PList [PInt 63, PList [PInt 5, PInt 1]],
                      PList [PInt 63, PList [PInt 0, PInt 0]]]
       = [(PInt 5, True), (PInt 0, False)]
   \<and> length (items_readings [PList [PInt 63, PList [PInt 5, PInt 1]],
                              PList [PInt 63, PList [PInt 0, PInt 0]]])
       = length (filter is_port_63 [PList [PInt 63, PList [PInt 5, PInt 1]],
                                    PList [PInt 63, PList [PInt 0, PInt 0]]])
   \<and> item_raises (PList [PInt 63, PInt 5]) \<noteq> None
   \<and> items_readings ([PList [PInt 63, PList [PInt 5, PInt 1]],
                        PList [PInt 63, PList [PInt 0, PInt 0]]]
                       @ PList [PInt 63, PInt 5] # [PList [PInt 63, PList [PInt 9, PInt 1]]])
       = [(PInt 5, True), (PInt 0, False)]\<close>
proof -
  let ?line = \<open>''{"m":0,"p":[[63,[5,1]],[63,[0,0]]]}''\<close>
  let ?items = "[PList [PInt 63, PList [PInt 5, PInt 1]], PList [PInt 63, PList [PInt 0, PInt 0]]]"
  let ?d = "[(str ''m'', PInt 0), (str ''p'', PList ?items)]"
  have u: "utf8_decode ?line = Inr (map of_char ?line)"
    by (rule utf8_decode_ascii) auto
  have l: "json_loads 990 (map of_char ?line) = Inr (PDict ?d)"
    using loads_two_entries [of 986] by simp
  have m: "map_of ?d (str ''m'') = Some (PInt 0) \<and> py_eq_int (PInt 0) 0
      \<and> map_of ?d (str ''p'') = Some (PList ?items)"
    by (simp add: str_def py_eq_int_def)
  have ok1: "item_raises (PList [PInt 63, PList [PInt 5, PInt 1]]) = None"
    and ok2: "item_raises (PList [PInt 63, PList [PInt 0, PInt 0]]) = None"
    by (simp_all add: item_raises_def item_reading_entry format_2f_def py_eq_int_def)
  then have ok: "\<forall>item \<in> set ?items. item_raises item = None" by simp
  have bad: "item_raises (PList [PInt 63, PInt 5]) \<noteq> None"
    by (simp add: item_raises_def item_reading_def py_getitem_int_def py_eq_int_def)
  have r: "items_readings ?items = [(PInt 5, True), (PInt 0, False)]"
    by (simp add: item_reading_entry format_2f_def py_eq_int_def)
  have rb: "items_readings (?items @ [PList [PInt 63, PInt 5]]) = [(PInt 5, True), (PInt 0, False)]"
    by (simp add: item_reading_entry format_2f_def py_eq_int_def)
       (simp add: item_reading_def py_getitem_int_def py_eq_int_def)
  note T = decoder_readings
    [where depth = 990 and line = ?line and decoded = "map of_char ?line" and d = ?d
       and m = "PInt 0" and items = ?items and bad = "PList [PInt 63, PInt 5]"
       and later = "[PList [PInt 63, PList [PInt 9, PInt 1]]]"]
  from T [THEN conjunct2, THEN conjunct1] u l m
  have c2: "line_readings 990 ?line = items_readings ?items" by blast
  from T [THEN conjunct2, THEN conjunct2, THEN conjunct1] ok
  have c3: "length (items_readings ?items) = length (filter is_port_63 ?items)" by blast
  from T [THEN conjunct2, THEN conjunct2, THEN conjunct2, THEN conjunct1] bad
  have "items_readings (?items @ PList [PInt 63, PInt 5] # [PList [PInt 63, PList [PInt 9, PInt 1]]])
      = items_readings (?items @ [PList [PInt 63, PInt 5]])" by blast
  with rb have c4: "items_readings
      (?items @ PList [PInt 63, PInt 5] # [PList [PInt 63, PList [PInt 9, PInt 1]]])
      = [(PInt 5, True), (PInt 0, False)]" by (simp only:)
  from u l m c2 ok1 ok2 r c3 bad c4 show ?thesis by blast
qed




section \<open>The config round trip\<close>

lemma hex_value_hex_digit: "d < 16 \<Longrightarrow> hex_value (hex_digit d) = Some d"
  by (auto simp: hex_value_def hex_digit_def)

lemma hex4_value:
  assumes "(n::nat) < 0x10000"
  shows "((n div 0x1000 mod 16 * 16 + n div 0x100 mod 16) * 16 + n div 0x10 mod 16) * 16 + n mod 16 = n"
proof -
  have d1: "n div 0x10 div 0x10 = n div 0x100"
    by (simp add: div_mult2_eq [symmetric])
  have d2: "n div 0x100 div 0x10 = n div 0x1000"
    by (simp add: div_mult2_eq [symmetric])
  have h3: "n div 0x10 * 16 + n mod 16 = n"
    using div_mult_mod_eq [of n 16] by simp
  have h2: "n div 0x100 * 16 + n div 0x10 mod 16 = n div 0x10"
    using div_mult_mod_eq [of "n div 0x10" 16] d1 by simp
  have h1: "n div 0x1000 * 16 + n div 0x100 mod 16 = n div 0x100"
    using div_mult_mod_eq [of "n div 0x100" 16] d2 by simp
  have "n div 0x1000 < 16"
    using assms by (simp add: div_less_iff_less_mult)
  then have s: "n div 0x1000 mod 16 = n div 0x1000" by simp
  show ?thesis unfolding s h1 h2 h3 ..
qed

lemma decode_uXXXX_hex4: "n < 0x10000 \<Longrightarrow> decode_uXXXX (hex4 n @ r) = Some n"
  using hex4_value [of n]
  by (simp add: decode_uXXXX_def hex4_def hex_value_hex_digit)

lemma nat_digits_not_Nil: "nat_digits n \<noteq> []"
  by (subst nat_digits.simps) simp

lemma nat_digits_is_digit: "c \<in> set (nat_digits n) \<Longrightarrow> is_digit c"
proof (induction n arbitrary: c rule: nat_digits.induct)
  case (1 n)
  show ?case
  proof (cases "n < 10")
    case True
    with "1.prems" show ?thesis
      by (subst (asm) nat_digits.simps) (simp add: is_digit_def)
  next
    case False
    with "1.prems" have "c \<in> set (nat_digits (n div 10)) \<or> c = 0x30 + n mod 10"
      by (subst (asm) nat_digits.simps) auto
    then show ?thesis
    proof
      assume "c \<in> set (nat_digits (n div 10))"
      with False show ?thesis by (rule "1.IH")
    next
      assume "c = 0x30 + n mod 10"
      moreover have "n mod 10 < 10" by simp
      ultimately show ?thesis unfolding is_digit_def by linarith
    qed
  qed
qed

lemma digits_value_snoc: "digits_value (ds @ [d]) = 10 * digits_value ds + (d - 0x30)"
  by (simp add: digits_value_def)

lemma digits_value_nat_digits: "digits_value (nat_digits n) = n"
proof (induction n rule: nat_digits.induct)
  case (1 n)
  show ?case
  proof (cases "n < 10")
    case True
    then show ?thesis
      by (subst nat_digits.simps) (simp add: digits_value_def)
  next
    case False
    with "1.IH" have "digits_value (nat_digits (n div 10)) = n div 10" by simp
    with False show ?thesis
      by (subst nat_digits.simps) (simp add: digits_value_snoc)
  qed
qed

lemma hd_nat_digits: "hd (nat_digits n) = 0x30 \<longleftrightarrow> n = 0"
proof (induction n rule: nat_digits.induct)
  case (1 n)
  show ?case
  proof (cases "n < 10")
    case True
    then show ?thesis
      by (subst nat_digits.simps) simp
  next
    case False
    then have "n div 10 \<noteq> 0" by simp
    with False "1.IH" have "hd (nat_digits (n div 10)) \<noteq> 0x30" by simp
    with False show ?thesis
      by (subst nat_digits.simps) (simp add: nat_digits_not_Nil)
  qed
qed

lemma takeWhile_nat_digits:
  "\<not> is_digit c \<Longrightarrow> takeWhile is_digit (nat_digits k @ c # r) = nat_digits k"
  by (simp add: takeWhile_append2 nat_digits_is_digit)

lemma dropWhile_nat_digits:
  "\<not> is_digit c \<Longrightarrow> dropWhile is_digit (nat_digits k @ c # r) = c # r"
  by (simp add: dropWhile_append2 nat_digits_is_digit)

lemma nat_digits_0: "nat_digits 0 = [0x30]"
  by (subst nat_digits.simps) simp

lemma match_integer_nat_digits:
  assumes "\<not> is_digit c"
  shows "match_integer (nat_digits k @ c # r) = Some (False, nat_digits k, c # r)"
proof -
  obtain d ds where n: "nat_digits k = d # ds"
    using nat_digits_not_Nil [of k] by (cases "nat_digits k") auto
  then have d: "is_digit d" using nat_digits_is_digit [of d k] by simp
  then have m: "d \<noteq> 0x2D" by (auto simp: is_digit_def)
  show ?thesis
  proof (cases "d = 0x30")
    case True
    with n have "k = 0" using hd_nat_digits [of k] by simp
    with n True m show ?thesis by (simp add: match_integer_def nat_digits_0)
  next
    case False
    have "takeWhile is_digit (d # ds @ c # r) = d # ds"
      and "dropWhile is_digit (d # ds @ c # r) = c # r"
      using takeWhile_nat_digits [OF assms, of k r] dropWhile_nat_digits [OF assms, of k r] n
      by simp_all
    with n False m d show ?thesis by (simp add: match_integer_def)
  qed
qed

lemma match_integer_minus_nat_digits:
  assumes "\<not> is_digit c" and "k \<noteq> 0"
  shows "match_integer (0x2D # nat_digits k @ c # r) = Some (True, nat_digits k, c # r)"
proof -
  obtain d ds where n: "nat_digits k = d # ds"
    using nat_digits_not_Nil [of k] by (cases "nat_digits k") auto
  then have d: "is_digit d" using nat_digits_is_digit [of d k] by simp
  from n assms(2) have z: "d \<noteq> 0x30" using hd_nat_digits [of k] by simp
  have "takeWhile is_digit (d # ds @ c # r) = d # ds"
    and "dropWhile is_digit (d # ds @ c # r) = c # r"
    using takeWhile_nat_digits [OF assms(1), of k r] dropWhile_nat_digits [OF assms(1), of k r] n
    by simp_all
  with n z d show ?thesis by (simp add: match_integer_def)
qed

text \<open>A number has at most \<open>k\<close> digits when it is below \<open>10 ^ k\<close>.\<close>

lemma length_nat_digits: "0 < k \<Longrightarrow> length (nat_digits n) \<le> k \<longleftrightarrow> n < 10 ^ k"
proof (induction n arbitrary: k rule: nat_digits.induct)
  case (1 n)
  show ?case
  proof (cases "n < 10")
    case True
    have "(10::nat) ^ 1 \<le> 10 ^ k" using "1.prems" by (intro power_increasing) simp_all
    with True have "n < 10 ^ k" by simp
    moreover from True have "length (nat_digits n) = 1" by (subst nat_digits.simps) simp
    ultimately show ?thesis using "1.prems" by simp
  next
    case False
    then have l: "length (nat_digits n) = Suc (length (nat_digits (n div 10)))"
      by (subst nat_digits.simps) simp
    show ?thesis
    proof (cases k)
      case 0
      with "1.prems" show ?thesis by simp
    next
      case (Suc j)
      show ?thesis
      proof (cases "j = 0")
        case True
        with Suc False l show ?thesis using nat_digits_not_Nil [of "n div 10"] by (cases "nat_digits (n div 10)") simp_all
      next
        case j: False
        then have "length (nat_digits (n div 10)) \<le> j \<longleftrightarrow> n div 10 < 10 ^ j"
          using "1.IH" [OF False, of j] by simp
        moreover have "n div 10 < 10 ^ j \<longleftrightarrow> n < 10 ^ Suc j"
          by (simp add: div_less_iff_less_mult mult.commute)
        ultimately show ?thesis using Suc l by simp
      qed
    qed
  qed
qed

lemma max_str_digits_pos: "0 < max_str_digits"
  by (simp add: max_str_digits_def)

lemma int_repr_small: "\<bar>n\<bar> < 10 ^ max_str_digits \<Longrightarrow> int_repr n = Inr (int_digits n)"
proof -
  assume "\<bar>n\<bar> < 10 ^ max_str_digits"
  then have "nat \<bar>n\<bar> < 10 ^ max_str_digits"
    by (metis nat_less_iff abs_ge_zero of_nat_numeral of_nat_power)
  then have "length (nat_digits (nat \<bar>n\<bar>)) \<le> max_str_digits"
    using length_nat_digits [OF max_str_digits_pos] by blast
  then show ?thesis by (simp add: int_repr_def)
qed

lemma int_repr_large: "10 ^ max_str_digits \<le> \<bar>n\<bar> \<Longrightarrow> int_repr n = Inl ValueError"
proof -
  assume "10 ^ max_str_digits \<le> \<bar>n\<bar>"
  then have "\<not> nat \<bar>n\<bar> < 10 ^ max_str_digits"
    by (metis nat_less_iff abs_ge_zero of_nat_numeral of_nat_power not_less)
  then have "\<not> length (nat_digits (nat \<bar>n\<bar>)) \<le> max_str_digits"
    using length_nat_digits [OF max_str_digits_pos] by blast
  then show ?thesis by (simp add: int_repr_def)
qed

lemma match_number_int_digits:
  assumes "\<not> is_digit c" and "c \<noteq> 0x2E" and "c \<noteq> 0x65" and "c \<noteq> 0x45"
    and "\<bar>n\<bar> < 10 ^ max_str_digits"
  shows "match_number (int_digits n @ c # r) = Some (Inr (PInt n, c # r))"
proof -
  have f: "match_frac (c # r) = ([], c # r)" using assms(2) by (simp add: match_frac_def)
  have e: "match_exp (c # r) = (None, c # r)" using assms(3,4) by (simp add: match_exp_def)
  from assms(5) have "nat \<bar>n\<bar> < 10 ^ max_str_digits"
    by (metis nat_less_iff abs_ge_zero of_nat_numeral of_nat_power)
  then have l: "\<not> max_str_digits < length (nat_digits (nat \<bar>n\<bar>))"
    using length_nat_digits [OF max_str_digits_pos, of "nat \<bar>n\<bar>"] by simp
  show ?thesis
  proof (cases "n < 0")
    case True
    then have "nat (- n) \<noteq> 0" by simp
    then have "match_integer (0x2D # nat_digits (nat (- n)) @ c # r)
        = Some (True, nat_digits (nat (- n)), c # r)"
      using assms(1) by (rule match_integer_minus_nat_digits [rotated])
    moreover from True have "nat \<bar>n\<bar> = nat (- n)" by simp
    ultimately show ?thesis using True f e l
      by (simp add: match_number_def int_digits_def digits_value_nat_digits)
  next
    case False
    have "match_integer (nat_digits (nat n) @ c # r) = Some (False, nat_digits (nat n), c # r)"
      using assms(1) by (rule match_integer_nat_digits)
    moreover from False have "nat \<bar>n\<bar> = nat n" by simp
    ultimately show ?thesis using False f e l
      by (simp add: match_number_def int_digits_def digits_value_nat_digits)
  qed
qed

lemma int_digits_first:
  "\<exists>c0 s. int_digits n = c0 # s \<and> (c0 = 0x2D \<or> is_digit c0)"
proof (cases "n < 0")
  case True
  then show ?thesis by (simp add: int_digits_def)
next
  case False
  obtain d ds where n: "nat_digits (nat n) = d # ds"
    using nat_digits_not_Nil [of "nat n"] by (cases "nat_digits (nat n)") auto
  then have "is_digit d" using nat_digits_is_digit [of d "nat n"] by simp
  with n False show ?thesis by (simp add: int_digits_def)
qed

lemma scan_once_int_digits:
  assumes "\<not> is_digit c" and "c \<noteq> 0x2E" and "c \<noteq> 0x65" and "c \<noteq> 0x45"
    and "\<bar>n\<bar> < 10 ^ max_str_digits"
  shows "scan_once depth (int_digits n @ c # r) = Inr (PInt n, c # r)"
proof -
  obtain c0 s where i: "int_digits n = c0 # s" and c0: "c0 = 0x2D \<or> is_digit c0"
    using int_digits_first by blast
  have m: "match_number (c0 # s @ c # r) = Some (Inr (PInt n, c # r))"
    using match_number_int_digits [OF assms, of r] i by simp
  from c0 have "c0 \<noteq> 0x22" "c0 \<noteq> 0x7B" "c0 \<noteq> 0x5B" "c0 \<noteq> 110" "c0 \<noteq> 116" "c0 \<noteq> 102"
    by (auto simp: is_digit_def)
  with m show ?thesis
    by (simp add: i ch_def starts_with_def str_def)
qed

subsection \<open>Strings\<close>

lemma scanstring_quote: "scanstring (0x22 # rest) = Inr ([], rest)"
  by (simp add: ch_def)

lemma scanstring_plain:
  "c \<noteq> 0x22 \<Longrightarrow> c \<noteq> 0x5C \<Longrightarrow> \<not> c < 0x20 \<Longrightarrow>
   scanstring (c # rest) = cons_char c (scanstring rest)"
  by (simp add: ch_def)

lemma scanstring_backslash:
  "e \<noteq> 0x75 \<Longrightarrow> backslash e = Some c \<Longrightarrow>
   scanstring (0x5C # e # rest) = cons_char c (scanstring rest)"
  by (simp add: ch_def)

lemma scanstring_u:
  "scanstring (0x5C # 0x75 # s1) =
     (case decode_uXXXX s1 of
        None \<Rightarrow> Inl JSONDecodeError
      | Some uni \<Rightarrow>
          if is_high_surrogate uni \<and> 6 < length (drop 4 s1)
             \<and> take 2 (drop 4 s1) = [0x5C, 0x75] then
            (case decode_uXXXX (drop 2 (drop 4 s1)) of
               None \<Rightarrow> Inl JSONDecodeError
             | Some uni2 \<Rightarrow>
                 if is_low_surrogate uni2
                 then cons_char (join_surrogates uni uni2) (scanstring (drop 6 (drop 4 s1)))
                 else cons_char uni (scanstring (drop 4 s1)))
          else cons_char uni (scanstring (drop 4 s1)))"
  by (simp add: ch_def Let_def cong: option.case_cong)

declare scanstring.simps [simp del]

lemma length_hex4: "length (hex4 n) = 4"
  by (simp add: hex4_def)

text \<open>The shapes of an escaped character.\<close>

lemma escape_char_cases:
  obtains
    (short) e where "escape_char c = [0x5C, e]" and "e \<noteq> 0x75" and "backslash e = Some c"
  | (plain) "escape_char c = [c]" and "c \<noteq> 0x22" and "c \<noteq> 0x5C" and "\<not> c < 0x20"
  | (u) "escape_char c = [0x5C, 0x75] @ hex4 c" and "c < 0x10000"
  | (pair) "escape_char c =
        [0x5C, 0x75] @ hex4 (0xD800 + (c - 0x10000) div 0x400 mod 0x400)
        @ [0x5C, 0x75] @ hex4 (0xDC00 + (c - 0x10000) mod 0x400)" and "0x10000 \<le> c"
proof -
  consider "c = 0x22" | "c = 0x5C" | "c = 0x0A" | "c = 0x0D" | "c = 0x09" | "c = 0x08"
    | "c = 0x0C"
    | "c \<noteq> 0x22" "c \<noteq> 0x5C" "0x20 \<le> c" "c \<le> 0x7E"
    | "c \<noteq> 0x0A" "c \<noteq> 0x0D" "c \<noteq> 0x09" "c \<noteq> 0x08" "c \<noteq> 0x0C" "c < 0x20"
    | "0x7E < c" "c < 0x10000"
    | "0x10000 \<le> c"
    by linarith
  then show ?thesis
  proof cases
    case 1
    then have "escape_char c = [0x5C, 0x22]" "(0x22::nat) \<noteq> 0x75" "backslash 0x22 = Some c"
      by (simp_all add: escape_char_def backslash_def ch_def)
    then show ?thesis by (rule short)
  next
    case 2
    then have "escape_char c = [0x5C, 0x5C]" "(0x5C::nat) \<noteq> 0x75" "backslash 0x5C = Some c"
      by (simp_all add: escape_char_def backslash_def ch_def)
    then show ?thesis by (rule short)
  next
    case 3
    then have "escape_char c = [0x5C, 0x6E]" "(0x6E::nat) \<noteq> 0x75" "backslash 0x6E = Some c"
      by (simp_all add: escape_char_def backslash_def ch_def)
    then show ?thesis by (rule short)
  next
    case 4
    then have "escape_char c = [0x5C, 0x72]" "(0x72::nat) \<noteq> 0x75" "backslash 0x72 = Some c"
      by (simp_all add: escape_char_def backslash_def ch_def)
    then show ?thesis by (rule short)
  next
    case 5
    then have "escape_char c = [0x5C, 0x74]" "(0x74::nat) \<noteq> 0x75" "backslash 0x74 = Some c"
      by (simp_all add: escape_char_def backslash_def ch_def)
    then show ?thesis by (rule short)
  next
    case 6
    then have "escape_char c = [0x5C, 0x62]" "(0x62::nat) \<noteq> 0x75" "backslash 0x62 = Some c"
      by (simp_all add: escape_char_def backslash_def ch_def)
    then show ?thesis by (rule short)
  next
    case 7
    then have "escape_char c = [0x5C, 0x66]" "(0x66::nat) \<noteq> 0x75" "backslash 0x66 = Some c"
      by (simp_all add: escape_char_def backslash_def ch_def)
    then show ?thesis by (rule short)
  next
    case 8
    then show ?thesis by (intro plain) (simp_all add: escape_char_def ch_def)
  next
    case 9
    then show ?thesis by (intro u) (simp_all add: escape_char_def ch_def)
  next
    case 10
    then show ?thesis by (intro u) (simp_all add: escape_char_def ch_def)
  next
    case 11
    then show ?thesis by (intro pair) (simp_all add: escape_char_def ch_def)
  qed
qed

lemma surrogates_of:
  assumes "0x10000 \<le> c" and "c < 0x110000"
  defines "hi \<equiv> 0xD800 + (c - 0x10000) div 0x400 mod 0x400"
    and "lo \<equiv> 0xDC00 + (c - 0x10000) mod 0x400"
  shows "hi < 0x10000" and "lo < 0x10000" and "is_high_surrogate hi" and "is_low_surrogate lo"
    and "\<not> is_low_surrogate hi" and "join_surrogates hi lo = c"
proof -
  have "(c - 0x10000) div 0x400 < 0x400"
    using assms(2) by (simp add: div_less_iff_less_mult)
  then have h: "hi = 0xD800 + (c - 0x10000) div 0x400" and b: "hi \<le> 0xDBFF"
    by (simp_all add: hi_def)
  have l: "(c - 0x10000) mod 0x400 < 0x400" by simp
  from b show "hi < 0x10000" by simp
  from l show "lo < 0x10000" by (simp add: lo_def)
  from h b show "is_high_surrogate hi" by (simp add: is_high_surrogate_def)
  from l show "is_low_surrogate lo" unfolding is_low_surrogate_def lo_def by linarith
  from b show "\<not> is_low_surrogate hi" by (simp add: is_low_surrogate_def)
  have "(c - 0x10000) div 0x400 * 0x400 + (c - 0x10000) mod 0x400 = c - 0x10000"
    by simp
  with assms(1) show "join_surrogates hi lo = c"
    by (simp add: join_surrogates_def h lo_def)
qed

text \<open>What follows an escaped character, when it begins with \<^verbatim>\<open>\u\<close>.\<close>

lemma escaped_peek:
  assumes "code_points s"
    and "take 2 (concat (map escape_char s) @ 0x22 # r) = [0x5C, 0x75]"
  shows "\<exists>u. decode_uXXXX (drop 2 (concat (map escape_char s) @ 0x22 # r)) = Some u
    \<and> (is_low_surrogate u \<longrightarrow> (\<exists>s'. s = u # s'))"
proof (cases s)
  case Nil
  with assms(2) show ?thesis by simp
next
  case (Cons c s')
  with assms(1) have c: "c < 0x110000" by simp
  show ?thesis
  proof (cases c rule: escape_char_cases)
    case (short e)
    with Cons assms(2) show ?thesis by simp
  next
    case plain
    with Cons assms(2) show ?thesis by simp
  next
    case u
    then have "decode_uXXXX (drop 2 (concat (map escape_char s) @ 0x22 # r)) = Some c"
      using Cons by (simp add: decode_uXXXX_hex4)
    with Cons show ?thesis by simp
  next
    case pair
    let ?hi = "0xD800 + (c - 0x10000) div 0x400 mod 0x400"
    from surrogates_of [OF pair(2) c] have "?hi < 0x10000" and "\<not> is_low_surrogate ?hi"
      by simp_all
    moreover from pair have
      "decode_uXXXX (drop 2 (concat (map escape_char s) @ 0x22 # r))
         = decode_uXXXX (hex4 ?hi @ ([0x5C, 0x75] @ hex4 (0xDC00 + (c - 0x10000) mod 0x400)
              @ concat (map escape_char s') @ 0x22 # r))"
      using Cons by simp
    ultimately show ?thesis by (simp add: decode_uXXXX_hex4)
  qed
qed

lemma no_surrogate_pair_tl: "no_surrogate_pair (c # s) \<Longrightarrow> no_surrogate_pair s"
  by (cases s) simp_all

lemma scanstring_escaped:
  "code_points s \<Longrightarrow> no_surrogate_pair s \<Longrightarrow>
   scanstring (concat (map escape_char s) @ 0x22 # r) = Inr (s, r)"
proof (induction s)
  case Nil
  show ?case by (simp add: scanstring_quote)
next
  case (Cons c s)
  let ?rest = "concat (map escape_char s) @ 0x22 # r"
  from Cons.prems have cp: "code_points s" and c: "c < 0x110000"
    and ns: "no_surrogate_pair s"
    by (simp_all add: no_surrogate_pair_tl)
  have IH: "scanstring ?rest = Inr (s, r)" using cp ns by (rule Cons.IH)
  show ?case
  proof (cases c rule: escape_char_cases)
    case (short e)
    then show ?thesis by (simp add: scanstring_backslash IH cons_char_def)
  next
    case plain
    then show ?thesis by (simp add: scanstring_plain IH cons_char_def)
  next
    case u
    have d: "decode_uXXXX (hex4 c @ ?rest) = Some c" using u(2) by (rule decode_uXXXX_hex4)
    have "\<not> is_low_surrogate u2"
      if h: "is_high_surrogate c" and t: "take 2 ?rest = [0x5C, 0x75]"
        and d2: "decode_uXXXX (drop 2 ?rest) = Some u2" for u2
    proof
      assume low: "is_low_surrogate u2"
      from escaped_peek [OF cp t] d2 low obtain s' where "s = u2 # s'" by auto
      with Cons.prems(2) h low show False by simp
    qed
    moreover have "\<exists>u2. decode_uXXXX (drop 2 ?rest) = Some u2" if "take 2 ?rest = [0x5C, 0x75]"
      using escaped_peek [OF cp that] by blast
    ultimately have "scanstring (0x5C # 0x75 # hex4 c @ ?rest) = cons_char c (scanstring ?rest)"
      by (auto simp: scanstring_u d length_hex4)
    with u IH show ?thesis by (simp add: cons_char_def)
  next
    case pair
    let ?hi = "0xD800 + (c - 0x10000) div 0x400 mod 0x400"
    let ?lo = "0xDC00 + (c - 0x10000) mod 0x400"
    from surrogates_of [OF pair(2) c] have f: "?hi < 0x10000" "?lo < 0x10000"
      "is_high_surrogate ?hi" "is_low_surrogate ?lo" "join_surrogates ?hi ?lo = c"
      by simp_all
    have "scanstring (0x5C # 0x75 # hex4 ?hi @ [0x5C, 0x75] @ hex4 ?lo @ ?rest)
        = cons_char c (scanstring ?rest)"
      using f by (simp add: scanstring_u decode_uXXXX_hex4 length_hex4)
    with pair IH show ?thesis by (simp add: cons_char_def)
  qed
qed

subsection \<open>The config text\<close>

lemma scan_once_encode_str:
  assumes "code_points s" and "no_surrogate_pair s"
  shows "scan_once depth (encode_str s @ r) = Inr (PStr s, r)"
  using scanstring_escaped [OF assms, of r] by (simp add: encode_str_def ch_def)

lemma skip_ws_encode_str: "skip_ws (encode_str s @ r) = encode_str s @ r"
  by (simp add: encode_str_def ch_def skip_ws_def is_ws_def)

lemma skip_ws_int_digits: "skip_ws (int_digits n @ r) = int_digits n @ r"
proof -
  obtain c0 s where i: "int_digits n = c0 # s" and c0: "c0 = 0x2D \<or> is_digit c0"
    using int_digits_first by blast
  from c0 have "\<not> is_ws c0" by (auto simp: is_ws_def is_digit_def)
  with i show ?thesis by (simp add: skip_ws_def)
qed

lemma skip_ws_Cons:
  "skip_ws (c # r) = (if is_ws c then skip_ws r else c # r)"
  by (simp add: skip_ws_def)

lemma skip_ws_Nil: "skip_ws [] = []"
  by (simp add: skip_ws_def)

text \<open>The second member of the object, for any text \<open>v\<close> that follows its colon.\<close>

lemma scanstring_threshold_key:
  \<open>scanstring (map of_char ''trigger_threshold": '' @ v)
      = Inr (str ''trigger_threshold'', [0x3A, 0x20] @ v)\<close>
  by (simp add: scanstring_plain scanstring_quote cons_char_def str_def)

lemma parse_threshold_member:
  assumes "\<bar>n\<bar> < 10 ^ max_str_digits"
  shows \<open>parse_object depth (map of_char ''trigger_threshold": '' @ int_digits n @ [0x0A, 0x7D])
     = Inr ([(str ''trigger_threshold'', PInt n)], [])\<close>
proof -
  have v: "scan_once depth (int_digits n @ [0x0A, 0x7D]) = Inr (PInt n, [0x0A, 0x7D])"
    using scan_once_int_digits [where c = "0x0A" and n = n and r = "[0x7D]"] assms
    by (simp add: is_digit_def)
  show ?thesis
    apply (subst parse_object.simps)
    apply (simp only: scanstring_threshold_key)
    apply (simp add: skip_ws_Cons skip_ws_int_digits is_ws_def v ch_def)
    done
qed

lemma parse_threshold_missing:
  \<open>parse_object depth (map of_char ''trigger_threshold": '') = Inl JSONDecodeError\<close>
proof -
  have k: \<open>scanstring (map of_char ''trigger_threshold": '')
      = Inr (str ''trigger_threshold'', [0x3A, 0x20])\<close>
    by (simp add: scanstring_plain scanstring_quote cons_char_def str_def)
  show ?thesis
    apply (subst parse_object.simps)
    apply (simp only: k)
    apply (simp add: skip_ws_Cons skip_ws_Nil is_ws_def ch_def)
    done
qed

lemma parse_config_members:
  assumes "code_points s" and "no_surrogate_pair s"
  shows \<open>parse_object depth (map of_char ''serial_number": '' @ encode_str s
        @ [0x2C, 0x0A, 0x20, 0x20, 0x20, 0x20, 0x22]
        @ map of_char ''trigger_threshold": '' @ v)
     = (case parse_object depth (map of_char ''trigger_threshold": '' @ v) of
          Inl e \<Rightarrow> Inl e
        | Inr (pairs, rest) \<Rightarrow> Inr ((str ''serial_number'', PStr s) # pairs, rest))\<close>
proof -
  let ?tail = \<open>[0x2C, 0x0A, 0x20, 0x20, 0x20, 0x20, 0x22]
        @ map of_char ''trigger_threshold": '' @ v\<close>
  have k: \<open>scanstring (map of_char ''serial_number": '' @ encode_str s @ ?tail)
      = Inr (str ''serial_number'', [0x3A, 0x20] @ encode_str s @ ?tail)\<close>
    by (simp add: scanstring_plain scanstring_quote cons_char_def str_def)
  have v: "scan_once depth (encode_str s @ ?tail) = Inr (PStr s, ?tail)"
    using assms by (rule scan_once_encode_str)
  have w: "skip_ws (encode_str s @ ?tail) = encode_str s @ ?tail"
    by (rule skip_ws_encode_str)
  show ?thesis
    apply (subst parse_object.simps)
    apply (simp only: k)
    apply (simp add: skip_ws_Cons is_ws_def ch_def w [simplified] v [simplified])
    done
qed

lemma loads_config_text:
  assumes "code_points s" and "no_surrogate_pair s" and "\<bar>n\<bar> < 10 ^ max_str_digits"
  shows "json_loads (Suc depth) (config_text s n)
     = Inr (PDict [(str ''serial_number'', PStr s), (str ''trigger_threshold'', PInt n)])"
proof -
  have "scan_once (Suc depth) (config_text s n)
      = Inr (PDict [(str ''serial_number'', PStr s), (str ''trigger_threshold'', PInt n)], [])"
    using parse_config_members [OF assms(1,2), of depth "int_digits n @ [0x0A, 0x7D]"]
      parse_threshold_member [OF assms(3), of depth]
    by (simp add: config_text_def config_head_def str_def ch_def skip_ws_Cons is_ws_def
        dict_of_pairs_def)
  moreover have "skip_ws (config_text s n) = config_text s n"
    by (simp add: config_text_def config_head_def str_def skip_ws_Cons is_ws_def)
  moreover have "\<not> starts_with (config_text s n) [0xFEFF]"
    by (simp add: config_text_def config_head_def str_def starts_with_def)
  ultimately show ?thesis
    by (simp add: json_loads_def skip_ws_Nil)
qed

lemma loads_config_head:
  assumes "code_points s" and "no_surrogate_pair s"
  shows "json_loads (Suc depth) (config_head s) = Inl JSONDecodeError"
proof -
  have "scan_once (Suc depth) (config_head s) = Inl JSONDecodeError"
    using parse_config_members [OF assms(1,2), of depth "[]"] parse_threshold_missing [of depth]
    by (simp add: config_head_def str_def ch_def skip_ws_Cons is_ws_def)
  moreover have "skip_ws (config_head s) = config_head s"
    by (simp add: config_head_def str_def skip_ws_Cons is_ws_def)
  moreover have "\<not> starts_with (config_head s) [0xFEFF]"
    by (simp add: config_head_def str_def starts_with_def)
  ultimately show ?thesis
    by (simp add: json_loads_def)
qed

lemma save_config_small:
  "\<bar>n\<bar> < 10 ^ max_str_digits \<Longrightarrow> save_config s n = (Some (config_text s n), None)"
  by (simp add: save_config_def json_dump_def int_repr_small config_text_def)

lemma save_config_large:
  "10 ^ max_str_digits \<le> \<bar>n\<bar> \<Longrightarrow> save_config s n = (Some (config_head s), Some ValueError)"
  by (simp add: save_config_def json_dump_def int_repr_large)

lemma load_save_config:
  assumes "code_points s" and "no_surrogate_pair s" and "\<bar>n\<bar> < 10 ^ max_str_digits"
  shows "load_config (Suc depth) (fst (save_config s n))
     = Inr (PDict [(str ''serial_number'', PStr s), (str ''trigger_threshold'', PInt n)])"
  using loads_config_text [OF assms] by (simp add: save_config_small [OF assms(3)] load_config_def)

lemma load_save_config_fields:
  assumes "code_points s" and "no_surrogate_pair s" and "\<bar>n\<bar> < 10 ^ max_str_digits"
  shows "\<exists>config. load_config (Suc depth) (fst (save_config s n)) = Inr config
     \<and> py_getitem_str config (str ''serial_number'') = Inr (PStr s)
     \<and> py_getitem_str config (str ''trigger_threshold'') = Inr (PInt n)"
  using load_save_config [OF assms, of depth] by (simp add: py_getitem_str_def str_def)

lemma code_points_ABC123: "code_points (str ''ABC123'') \<and> no_surrogate_pair (str ''ABC123'')"
  by (simp add: str_def is_high_surrogate_def)

lemma below_limit:
  assumes "\<bar>n\<bar> < 10 ^ k" and "k \<le> max_str_digits"
  shows "\<bar>n :: int\<bar> < 10 ^ max_str_digits"
proof -
  have "(10 :: int) ^ k \<le> 10 ^ max_str_digits"
    using assms(2) by (intro power_increasing) simp_all
  with assms(1) show ?thesis by (rule less_le_trans)
qed

section \<open>Claims about the config store\<close>

text \<open>
  Claim C8, as stated, fails for two kinds of values.  \<^verbatim>\<open>json.dump\<close> writes a high surrogate
  followed by a low surrogate as two \<^verbatim>\<open>\uXXXX\<close> escapes, which \<^verbatim>\<open>json.load\<close> reads back as
  the one character they encode: the two code points \<open>0xD83D, 0xDE00\<close> come back as the
  single code point \<open>0x1F600\<close>.  And \<^verbatim>\<open>json.dump\<close> raises \<^verbatim>\<open>ValueError\<close> on an integer of
  more than 4300 digits, after it has written the text before the number: the file left
  cannot be loaded.
\<close>

theorem config_round_trip_counterexample:
  "code_points [0xD83D, 0xDE00]
   \<and> save_config [0xD83D, 0xDE00] 3 = (Some (config_text [0xD83D, 0xDE00] 3), None)
   \<and> load_config 990 (fst (save_config [0xD83D, 0xDE00] 3))
       = Inr (PDict [(str ''serial_number'', PStr [0x1F600]), (str ''trigger_threshold'', PInt 3)])
   \<and> [0xD83D, 0xDE00] \<noteq> [0x1F600 :: nat]
   \<and> save_config (str ''ABC123'') (10 ^ max_str_digits)
       = (Some (config_head (str ''ABC123'')), Some ValueError)
   \<and> load_config 990 (fst (save_config (str ''ABC123'') (10 ^ max_str_digits)))
       = Inl JSONDecodeError"
proof -
  have small: "\<bar>3 :: int\<bar> < 10 ^ max_str_digits"
    by (rule below_limit [of 3 1]) (simp_all add: max_str_digits_def)
  have "config_text [0xD83D, 0xDE00] 3 = config_text [0x1F600] 3"
    by (simp add: config_text_def config_head_def encode_str_def escape_char_def hex4_def
        hex_digit_def ch_def)
  then have "fst (save_config [0xD83D, 0xDE00] 3) = fst (save_config [0x1F600] 3)"
    by (simp add: save_config_small [OF small])
  moreover have "load_config (Suc 989) (fst (save_config [0x1F600] 3))
       = Inr (PDict [(str ''serial_number'', PStr [0x1F600]), (str ''trigger_threshold'', PInt 3)])"
    using small by (intro load_save_config) simp_all
  ultimately have a: "load_config 990 (fst (save_config [0xD83D, 0xDE00] 3))
       = Inr (PDict [(str ''serial_number'', PStr [0x1F600]), (str ''trigger_threshold'', PInt 3)])"
    by simp
  have b: "save_config (str ''ABC123'') (10 ^ max_str_digits)
       = (Some (config_head (str ''ABC123'')), Some ValueError)"
    by (rule save_config_large) simp
  have "json_loads (Suc 989) (config_head (str ''ABC123'')) = Inl JSONDecodeError"
    using code_points_ABC123 by (intro loads_config_head) simp_all
  then have c: "load_config 990 (fst (save_config (str ''ABC123'') (10 ^ max_str_digits)))
       = Inl JSONDecodeError"
    by (simp add: b load_config_def)
  from a b c save_config_small [OF small, of "[0xD83D, 0xDE00]"] show ?thesis by simp
qed

text \<open>
  Claim C8, amended.  For every string serial number in which no high surrogate is directly
  followed by a low surrogate, and every integer threshold of at most 4300 digits (of
  magnitude below \<open>10 ^ 4300\<close>), \<^verbatim>\<open>save_config\<close> writes the whole text and raises nothing, and
  \<^verbatim>\<open>load_config\<close> after it returns the dict with exactly these two values; in particular
  \<^verbatim>\<open>save_config("ABC123", 3)\<close> followed by \<^verbatim>\<open>load_config\<close> gives \<^verbatim>\<open>serial_number == "ABC123"\<close>
  and \<^verbatim>\<open>trigger_threshold == 3\<close>.  For an integer of more digits, \<^verbatim>\<open>save_config\<close> raises
  \<^verbatim>\<open>ValueError\<close> and leaves the text written before the number, which \<^verbatim>\<open>load_config\<close>
  refuses with \<^verbatim>\<open>JSONDecodeError\<close>.  (The loading holds wherever the interpreter allows
  the one level of nesting of the object.)
\<close>

theorem config_round_trip:
  "(code_points s \<and> no_surrogate_pair s \<and> \<bar>n\<bar> < 10 ^ max_str_digits \<longrightarrow>
      save_config s n = (Some (config_text s n), None)
      \<and> load_config (Suc depth) (fst (save_config s n))
        = Inr (PDict [(str ''serial_number'', PStr s), (str ''trigger_threshold'', PInt n)])
      \<and> (\<exists>config. load_config (Suc depth) (fst (save_config s n)) = Inr config
           \<and> py_getitem_str config (str ''serial_number'') = Inr (PStr s)
           \<and> py_getitem_str config (str ''trigger_threshold'') = Inr (PInt n)))
   \<and> (10 ^ max_str_digits \<le> \<bar>n\<bar> \<longrightarrow>
      save_config s n = (Some (config_head s), Some ValueError))
   \<and> (code_points s \<and> no_surrogate_pair s \<longrightarrow>
      load_config (Suc depth) (Some (config_head s)) = Inl JSONDecodeError)
   \<and> save_config (str ''ABC123'') 3 = (Some (config_text (str ''ABC123'') 3), None)
   \<and> (\<exists>config. load_config (Suc depth) (fst (save_config (str ''ABC123'') 3)) = Inr config
           \<and> py_getitem_str config (str ''serial_number'') = Inr (PStr (str ''ABC123''))
           \<and> py_getitem_str config (str ''trigger_threshold'') = Inr (PInt 3))"
proof -
  have small: "\<bar>3 :: int\<bar> < 10 ^ max_str_digits"
    by (rule below_limit [of 3 1]) (simp_all add: max_str_digits_def)
  have "code_points s \<and> no_surrogate_pair s \<longrightarrow>
      load_config (Suc depth) (Some (config_head s)) = Inl JSONDecodeError"
    using loads_config_head [of s depth] by (simp add: load_config_def)
  with load_save_config [of s n depth] load_save_config_fields [of s n depth]
    load_save_config_fields [of "str ''ABC123''" 3 depth] code_points_ABC123 small
    save_config_small [of n s] save_config_large [of n s] save_config_small [OF small, of "str ''ABC123''"]
  show ?thesis by blast
qed

theorem config_round_trip_witness:
  "code_points (str ''SN-7'') \<and> no_surrogate_pair (str ''SN-7'')
   \<and> \<bar>- 12 :: int\<bar> < 10 ^ max_str_digits
   \<and> save_config (str ''SN-7'') (- 12) = (Some (config_text (str ''SN-7'') (- 12)), None)
   \<and> load_config 990 (fst (save_config (str ''SN-7'') (- 12)))
        = Inr (PDict [(str ''serial_number'', PStr (str ''SN-7'')),
                      (str ''trigger_threshold'', PInt (- 12))])
   \<and> (10 :: int) ^ max_str_digits \<le> \<bar>- (10 ^ max_str_digits)\<bar>
   \<and> save_config (str ''SN-7'') (- (10 ^ max_str_digits))
        = (Some (config_head (str ''SN-7'')), Some ValueError)
   \<and> load_config 990 (Some (config_head (str ''SN-7''))) = Inl JSONDecodeError"
proof -
  have h: "code_points (str ''SN-7'') \<and> no_surrogate_pair (str ''SN-7'')"
    by (simp add: str_def is_high_surrogate_def)
  have small: "\<bar>- 12 :: int\<bar> < 10 ^ max_str_digits"
    by (rule below_limit [of "- 12" 2]) (simp_all add: max_str_digits_def)
  have large: "(10 :: int) ^ max_str_digits \<le> \<bar>- (10 ^ max_str_digits)\<bar>"
    by simp
  from config_round_trip [of "str ''SN-7''" "- 12" 989] h small
  have a: "save_config (str ''SN-7'') (- 12) = (Some (config_text (str ''SN-7'') (- 12)), None)"
    "load_config (Suc 989) (fst (save_config (str ''SN-7'') (- 12)))
        = Inr (PDict [(str ''serial_number'', PStr (str ''SN-7'')),
                      (str ''trigger_threshold'', PInt (- 12))])"
    "load_config (Suc 989) (Some (config_head (str ''SN-7''))) = Inl JSONDecodeError"
    by blast+
  from config_round_trip [of "str ''SN-7''" "- (10 ^ max_str_digits)" 989] large
  have b: "save_config (str ''SN-7'') (- (10 ^ max_str_digits))
        = (Some (config_head (str ''SN-7'')), Some ValueError)"
    by blast
  have e: "Suc 989 = 990" by simp
  from h small large a [unfolded e] b show ?thesis by blast
qed

text \<open>
  Claim C10, as stated, fails: the prompt takes any integer and \<^verbatim>\<open>main\<close> checks no range
  before it saves.  The answer 50 is saved as it is.
\<close>

theorem threshold_range_counterexample:
  "main_setup [] (Some (str ''COM3'')) (Some (str ''ABC123'')) (Some 50)
     = Configured (Some (config_text (str ''ABC123'') 50)) (str ''COM3'') 50
   \<and> load_config 990 (Some (config_text (str ''ABC123'') 50))
     = Inr (PDict [(str ''serial_number'', PStr (str ''ABC123'')),
                   (str ''trigger_threshold'', PInt 50)])
   \<and> \<not> (0 \<le> (50 :: int) \<and> (50 :: int) \<le> 10)"
proof -
  have small: "\<bar>50 :: int\<bar> < 10 ^ max_str_digits"
    by (rule below_limit [of 50 2]) (simp_all add: max_str_digits_def)
  have "main_setup [] (Some (str ''COM3'')) (Some (str ''ABC123'')) (Some 50)
     = Configured (Some (config_text (str ''ABC123'') 50)) (str ''COM3'') 50"
    by (simp add: main_setup_def ask_threshold_def save_config_small [OF small] str_def)
  moreover have "json_loads (Suc 989) (config_text (str ''ABC123'') 50)
     = Inr (PDict [(str ''serial_number'', PStr (str ''ABC123'')),
                   (str ''trigger_threshold'', PInt 50)])"
    using code_points_ABC123 small by (intro loads_config_text) simp_all
  ultimately show ?thesis by (simp add: load_config_def)
qed

text \<open>
  Claim C10, amended.  Every config record a successful session setup writes has as
  \<^verbatim>\<open>trigger_threshold\<close> exactly the integer the prompt returned, with no range enforced: the
  integer the user typed, whatever it is, or, on an empty answer, the threshold saved before,
  or 1 when none was saved.  Loading the file written gives that integer back.  (The integer
  has at most 4300 digits: the prompt's \<^verbatim>\<open>int\<close> conversion and \<^verbatim>\<open>json.load\<close> refuse a longer
  one, and so does \<^verbatim>\<open>json.dump\<close>, with which the setup fails and writes no record.)
\<close>

theorem threshold_saved_as_answered:
  "(port \<noteq> [] \<and> serial \<noteq> [] \<and> \<bar>n\<bar> < 10 ^ max_str_digits \<longrightarrow>
      main_setup config (Some port) (Some serial) (Some n)
        = Configured (Some (config_text serial n)) port n)
   \<and> (port \<noteq> [] \<and> serial \<noteq> [] \<and> map_of config (str ''trigger_threshold'') = Some (PInt d)
        \<and> \<bar>d\<bar> < 10 ^ max_str_digits \<longrightarrow>
      main_setup config (Some port) (Some serial) None
        = Configured (Some (config_text serial d)) port d)
   \<and> (port \<noteq> [] \<and> serial \<noteq> [] \<and> map_of config (str ''trigger_threshold'') = None \<longrightarrow>
      main_setup config (Some port) (Some serial) None
        = Configured (Some (config_text serial 1)) port 1)
   \<and> (code_points serial \<and> no_surrogate_pair serial \<and> \<bar>n\<bar> < 10 ^ max_str_digits \<longrightarrow>
      (\<exists>saved. load_config (Suc depth) (Some (config_text serial n)) = Inr saved
         \<and> py_getitem_str saved (str ''trigger_threshold'') = Inr (PInt n)))
   \<and> (port \<noteq> [] \<and> serial \<noteq> [] \<and> 10 ^ max_str_digits \<le> \<bar>n\<bar> \<longrightarrow>
      main_setup config (Some port) (Some serial) (Some n)
        = SaveFailed (Some (config_head serial)) ValueError)"
proof -
  have one: "\<bar>1 :: int\<bar> < 10 ^ max_str_digits"
    by (rule below_limit [of 1 1]) (simp_all add: max_str_digits_def)
  have l: "code_points serial \<and> no_surrogate_pair serial \<and> \<bar>n\<bar> < 10 ^ max_str_digits \<longrightarrow>
      (\<exists>saved. load_config (Suc depth) (Some (config_text serial n)) = Inr saved
         \<and> py_getitem_str saved (str ''trigger_threshold'') = Inr (PInt n))"
    using loads_config_text [of serial n depth]
    by (simp add: load_config_def py_getitem_str_def str_def)
  show ?thesis
    using l save_config_small [OF one, of serial]
    by (auto simp: main_setup_def ask_threshold_def save_config_small save_config_large)
qed

theorem threshold_saved_as_answered_witness:
  "str ''COM3'' \<noteq> [] \<and> str ''ABC123'' \<noteq> []
   \<and> \<bar>- 4 :: int\<bar> < 10 ^ max_str_digits
   \<and> main_setup [] (Some (str ''COM3'')) (Some (str ''ABC123'')) (Some (- 4))
       = Configured (Some (config_text (str ''ABC123'') (- 4))) (str ''COM3'') (- 4)
   \<and> map_of [(str ''trigger_threshold'', PInt 7)] (str ''trigger_threshold'') = Some (PInt 7)
   \<and> \<bar>7 :: int\<bar> < 10 ^ max_str_digits
   \<and> main_setup [(str ''trigger_threshold'', PInt 7)] (Some (str ''COM3'')) (Some (str ''ABC123''))
         None
       = Configured (Some (config_text (str ''ABC123'') 7)) (str ''COM3'') 7
   \<and> map_of [] (str ''trigger_threshold'') = (None :: pyval option)
   \<and> main_setup [] (Some (str ''COM3'')) (Some (str ''ABC123'')) None
       = Configured (Some (config_text (str ''ABC123'') 1)) (str ''COM3'') 1
   \<and> code_points (str ''ABC123'') \<and> no_surrogate_pair (str ''ABC123'')
   \<and> (\<exists>saved. load_config 990 (Some (config_text (str ''ABC123'') (- 4))) = Inr saved
         \<and> py_getitem_str saved (str ''trigger_threshold'') = Inr (PInt (- 4)))
   \<and> (10 :: int) ^ max_str_digits \<le> \<bar>10 ^ max_str_digits\<bar>
   \<and> main_setup [] (Some (str ''COM3'')) (Some (str ''ABC123'')) (Some (10 ^ max_str_digits))
       = SaveFailed (Some (config_head (str ''ABC123''))) ValueError"
proof -
  have h: "str ''COM3'' \<noteq> [] \<and> str ''ABC123'' \<noteq> []"
    by (simp add: str_def)
  have m: "map_of [(str ''trigger_threshold'', PInt 7)] (str ''trigger_threshold'') = Some (PInt 7)"
      "map_of [] (str ''trigger_threshold'') = (None :: pyval option)"
    by simp_all
  have s: "\<bar>- 4 :: int\<bar> < 10 ^ max_str_digits" "\<bar>7 :: int\<bar> < 10 ^ max_str_digits"
    by (rule below_limit [of _ 1]; simp add: max_str_digits_def)+
  have g: "(10 :: int) ^ max_str_digits \<le> \<bar>10 ^ max_str_digits\<bar>" by simp
  have e: "Suc 989 = 990" by simp
  note T = threshold_saved_as_answered
    [where port = "str ''COM3''" and serial = "str ''ABC123''" and depth = 989]
  from T [where n = "- 4" and config = "[]", THEN conjunct1] h s
  have c1: "main_setup [] (Some (str ''COM3'')) (Some (str ''ABC123'')) (Some (- 4))
       = Configured (Some (config_text (str ''ABC123'') (- 4))) (str ''COM3'') (- 4)"
    by blast
  from T [where config = "[(str ''trigger_threshold'', PInt 7)]" and d = 7,
      THEN conjunct2, THEN conjunct1] h m s
  have c2: "main_setup [(str ''trigger_threshold'', PInt 7)] (Some (str ''COM3''))
         (Some (str ''ABC123'')) None
       = Configured (Some (config_text (str ''ABC123'') 7)) (str ''COM3'') 7"
    by blast
  from T [where config = "[]", THEN conjunct2, THEN conjunct2, THEN conjunct1] h m
  have c3: "main_setup [] (Some (str ''COM3'')) (Some (str ''ABC123'')) None
       = Configured (Some (config_text (str ''ABC123'') 1)) (str ''COM3'') 1"
    by blast
  from T [where n = "- 4", THEN conjunct2, THEN conjunct2, THEN conjunct2, THEN conjunct1]
    code_points_ABC123 s
  have c4: "\<exists>saved. load_config 990 (Some (config_text (str ''ABC123'') (- 4))) = Inr saved
         \<and> py_getitem_str saved (str ''trigger_threshold'') = Inr (PInt (- 4))"
    unfolding e by blast
  from T [where n = "10 ^ max_str_digits" and config = "[]",
      THEN conjunct2, THEN conjunct2, THEN conjunct2, THEN conjunct2] h g
  have c5: "main_setup [] (Some (str ''COM3'')) (Some (str ''ABC123'')) (Some (10 ^ max_str_digits))
       = SaveFailed (Some (config_head (str ''ABC123''))) ValueError"
    by blast
  from h s m c1 c2 c3 c4 c5 g code_points_ABC123 show ?thesis by blast
qed

section \<open>The parser consumes its input\<close>

lemma cons_char_Inr:
  "cons_char c x = Inr (v, rest) \<Longrightarrow> \<exists>v'. x = Inr (v', rest)"
  by (auto simp: cons_char_def split: sum.splits)

lemma scanstring_consumes:
  "scanstring s = Inr (v, rest) \<Longrightarrow> length rest < length s"
proof (induction s arbitrary: v rest rule: length_induct)
  case (1 s)
  show ?case
  proof (cases s)
    case Nil
    with "1.prems" show ?thesis by (simp add: scanstring.simps)
  next
    case (Cons c s0)
    have step: "length rest < length x"
      if "cons_char c' (scanstring x) = Inr (v, rest)" and "length x < length s" for c' x
    proof -
      from that(1) obtain v' where "scanstring x = Inr (v', rest)"
        using cons_char_Inr by blast
      with "1.IH" that(2) show ?thesis by blast
    qed
    from "1.prems" Cons show ?thesis
      by (auto simp: scanstring.simps Let_def
          split: if_splits list.splits option.splits
          dest!: step)
  qed
qed

lemma length_skip_ws: "length (skip_ws s) \<le> length s"
  by (simp add: skip_ws_def length_dropWhile_le)

lemma skip_ws_Cons_length: "skip_ws s = c # r \<Longrightarrow> length r < length s"
  using length_skip_ws [of s] by simp

lemma match_integer_consumes:
  "match_integer s = Some (neg, ds, r) \<Longrightarrow> length r < length s"
proof -
  assume a: "match_integer s = Some (neg, ds, r)"
  let ?s1 = "if take 1 s = [0x2D] then drop 1 s else s"
  have l: "length ?s1 \<le> length s" by simp
  from a obtain c r0 where s1: "?s1 = c # r0"
    by (cases ?s1) (simp_all add: match_integer_def Let_def)
  from a s1 have "r = r0 \<or> r = dropWhile is_digit (c # r0) \<and> is_digit c"
    by (auto simp: match_integer_def Let_def split: if_splits)
  then have "length r \<le> length r0"
    using length_dropWhile_le [of is_digit r0] by auto
  with l s1 show ?thesis by (simp split: if_splits)
qed

lemma match_frac_consumes: "match_frac s = (fs, r) \<Longrightarrow> length r \<le> length s"
  using length_dropWhile_le [of is_digit "tl s"]
  by (auto simp: match_frac_def split: list.splits if_splits)

lemma match_exp_consumes: "match_exp s = (ex, r) \<Longrightarrow> length r \<le> length s"
proof (cases s)
  case Nil
  assume "match_exp s = (ex, r)"
  with Nil show ?thesis by (simp add: match_exp_def)
next
  case (Cons c r0)
  assume a: "match_exp s = (ex, r)"
  let ?r1 = "if take 1 r0 = [0x2D] \<or> take 1 r0 = [0x2B] then drop 1 r0 else r0"
  have "length (dropWhile is_digit ?r1) \<le> length ?r1" by (rule length_dropWhile_le)
  moreover have "length ?r1 \<le> length r0" by simp
  ultimately have "length (dropWhile is_digit ?r1) \<le> length r0" by (rule order_trans)
  moreover from a Cons have "r = s \<or> r = dropWhile is_digit ?r1"
    by (auto simp: match_exp_def Let_def split: if_splits)
  ultimately show ?thesis using Cons by auto
qed

lemma match_number_consumes:
  assumes "match_number s = Some (Inr (v, rest))"
  shows "length rest < length s"
proof -
  from assms obtain neg ds r where i: "match_integer s = Some (neg, ds, r)"
    by (auto simp: match_number_def split: option.splits)
  obtain fs r1 where f: "match_frac r = (fs, r1)" by (cases "match_frac r")
  obtain ex r2 where e: "match_exp r1 = (ex, r2)" by (cases "match_exp r1")
  from assms i f e have "rest = r2"
    by (auto simp: match_number_def Let_def split: if_splits)
  with match_integer_consumes [OF i] match_frac_consumes [OF f] match_exp_consumes [OF e]
  show ?thesis by simp
qed

lemma parser_consumes:
  "(scan_once depth s = Inr (v, rest) \<longrightarrow> length rest < length s)
   \<and> (parse_array depth s = Inr (vs, rest) \<longrightarrow> length rest < length s)
   \<and> (parse_object depth s = Inr (ps, rest) \<longrightarrow> length rest < length s)"
proof (induction s arbitrary: depth v vs ps rest rule: length_induct)
  case (1 s)
  have IHa: "length r < length x" if "parse_array k x = Inr (y, r)" and "length x < length s" for k x y r
    using "1.IH" that by blast
  have IHo: "length r < length x" if "parse_object k x = Inr (y, r)" and "length x < length s" for k x y r
    using "1.IH" that by blast
  have IHs: "length r < length x" if "scan_once k x = Inr (y, r)" and "length x < length s" for k x y r
    using "1.IH" that by blast
  have scan: "length r < length s" if a: "scan_once depth s = Inr (y, r)" for y r
  proof (cases s)
    case Nil
    with a show ?thesis by simp
  next
    case (Cons c s0)
    note ws = skip_ws_Cons_length [of s0]
    from a Cons show ?thesis
      by (auto simp: starts_with_def str_def
          split: if_splits sum.splits list.splits option.splits prod.splits nat.splits
          dest!: scanstring_consumes match_number_consumes IHa IHo ws)
  qed
  have arr: "length r < length s" if a: "parse_array depth s = Inr (y, r)" for y r
  proof -
    from a obtain v0 rest0 where s0: "scan_once depth s = Inr (v0, rest0)"
      by (subst (asm) parse_array.simps) (auto split: sum.splits)
    then have l0: "length rest0 < length s" by (rule scan)
    from a s0 obtain c s1 where w: "skip_ws rest0 = c # s1"
      by (subst (asm) parse_array.simps) (auto split: list.splits)
    then have l1: "length s1 < length rest0" by (rule skip_ws_Cons_length)
    from a s0 w have "r = s1 \<or> (\<exists>y'. parse_array depth (skip_ws s1) = Inr (y', r))"
      by (subst (asm) parse_array.simps) (auto split: if_splits sum.splits)
    then show ?thesis
    proof
      assume "r = s1"
      with l0 l1 show ?thesis by simp
    next
      assume "\<exists>y'. parse_array depth (skip_ws s1) = Inr (y', r)"
      then obtain y' where p: "parse_array depth (skip_ws s1) = Inr (y', r)" by blast
      have "length (skip_ws s1) < length s"
        using length_skip_ws [of s1] l0 l1 by simp
      with IHa [OF p] show ?thesis by simp
    qed
  qed
  have obj: "length r < length s" if a: "parse_object depth s = Inr (y, r)" for y r
  proof -
    from a obtain key rest0 where k: "scanstring s = Inr (key, rest0)"
      by (subst (asm) parse_object.simps) (auto split: sum.splits)
    then have l0: "length rest0 < length s" by (rule scanstring_consumes)
    from a k obtain c s1 where w: "skip_ws rest0 = c # s1"
      by (subst (asm) parse_object.simps) (auto split: list.splits)
    then have l1: "length s1 < length rest0" by (rule skip_ws_Cons_length)
    from a k w obtain v1 rest1 where v: "scan_once depth (skip_ws s1) = Inr (v1, rest1)"
      by (subst (asm) parse_object.simps) (auto split: if_splits sum.splits)
    have l2: "length (skip_ws s1) < length s"
      using length_skip_ws [of s1] l0 l1 by simp
    with IHs [OF v] have l3: "length rest1 < length s" by simp
    from a k w v obtain c2 s2 where w2: "skip_ws rest1 = c2 # s2"
      by (subst (asm) parse_object.simps) (auto split: if_splits list.splits)
    then have l4: "length s2 < length rest1" by (rule skip_ws_Cons_length)
    from a k w v w2 have "r = s2
        \<or> (\<exists>c3 s3 y'. skip_ws s2 = c3 # s3 \<and> parse_object depth s3 = Inr (y', r))"
      by (subst (asm) parse_object.simps) (auto split: if_splits sum.splits list.splits)
    then show ?thesis
    proof
      assume "r = s2"
      with l3 l4 show ?thesis by simp
    next
      assume "\<exists>c3 s3 y'. skip_ws s2 = c3 # s3 \<and> parse_object depth s3 = Inr (y', r)"
      then obtain c3 s3 y' where w3: "skip_ws s2 = c3 # s3"
        and p: "parse_object depth s3 = Inr (y', r)" by blast
      from w3 have "length s3 < length s2" by (rule skip_ws_Cons_length)
      with l3 l4 have "length s3 < length s" by simp
      with IHo [OF p] show ?thesis by simp
    qed
  qed
  from scan arr obj show ?case by blast
qed

text \<open>
  The two length tests in \<^verbatim>\<open>parse_array\<close> and \<^verbatim>\<open>parse_object\<close> are there for the
  termination proof only: they always hold, so the functions are the loops of
  \<^verbatim>\<open>JSONArray\<close> and \<^verbatim>\<open>JSONObject\<close>.
\<close>

lemma parse_array_loop:
  \<open>parse_array depth s =
     (case scan_once depth s of
        Inl e \<Rightarrow> Inl e
      | Inr (v, rest) \<Rightarrow>
          (case skip_ws rest of
             [] \<Rightarrow> Inl JSONDecodeError
           | c # s1 \<Rightarrow>
               if c = ch CHR '']'' then Inr ([v], s1)
               else if c = ch CHR '','' then
                 (case parse_array depth (skip_ws s1) of
                    Inl e \<Rightarrow> Inl e
                  | Inr (vs, rest') \<Rightarrow> Inr (v # vs, rest'))
               else Inl JSONDecodeError))\<close>
proof (cases "scan_once depth s")
  case (Inl e)
  then show ?thesis by (subst parse_array.simps) simp
next
  case (Inr x)
  obtain v rest where x: "x = (v, rest)" by (cases x)
  with Inr have l: "length rest < length s" using parser_consumes by blast
  show ?thesis
  proof (cases "skip_ws rest")
    case Nil
    with Inr x show ?thesis by (subst parse_array.simps) simp
  next
    case (Cons c s1)
    then have "length s1 < length rest" by (rule skip_ws_Cons_length)
    with l have "length s1 < length s" by simp
    with Inr x Cons show ?thesis by (subst parse_array.simps) simp
  qed
qed

lemma parse_object_loop:
  \<open>parse_object depth s =
     (case scanstring s of
        Inl e \<Rightarrow> Inl e
      | Inr (key, rest) \<Rightarrow>
          (case skip_ws rest of
             [] \<Rightarrow> Inl JSONDecodeError
           | c # s1 \<Rightarrow>
               if c = ch CHR '':'' then
                 (case scan_once depth (skip_ws s1) of
                    Inl e \<Rightarrow> Inl e
                  | Inr (v, rest1) \<Rightarrow>
                      (case skip_ws rest1 of
                         [] \<Rightarrow> Inl JSONDecodeError
                       | c2 # s2 \<Rightarrow>
                           if c2 = ch CHR ''}'' then Inr ([(key, v)], s2)
                           else if c2 = ch CHR '','' then
                             (case skip_ws s2 of
                                [] \<Rightarrow> Inl JSONDecodeError
                              | c3 # s3 \<Rightarrow>
                                  if c3 = ch CHR ''"'' then
                                    (case parse_object depth s3 of
                                       Inl e \<Rightarrow> Inl e
                                     | Inr (pairs, rest') \<Rightarrow> Inr ((key, v) # pairs, rest'))
                                  else Inl JSONDecodeError)
                           else Inl JSONDecodeError))
               else Inl JSONDecodeError))\<close>
proof (cases "scanstring s")
  case (Inl e)
  then show ?thesis by (subst parse_object.simps) simp
next
  case (Inr x)
  obtain key rest where x: "x = (key, rest)" by (cases x)
  with Inr have l0: "length rest < length s" using scanstring_consumes by blast
  show ?thesis
  proof (cases "skip_ws rest")
    case Nil
    with Inr x show ?thesis by (subst parse_object.simps) simp
  next
    case (Cons c s1)
    then have "length s1 < length rest" by (rule skip_ws_Cons_length)
    with l0 have l1: "length s1 < length s" by simp
    show ?thesis
    proof (cases "scan_once depth (skip_ws s1)")
      case (Inl e)
      with Inr x Cons l1 show ?thesis by (subst parse_object.simps) simp
    next
      case v: (Inr y)
      obtain v1 rest1 where y: "y = (v1, rest1)" by (cases y)
      with v have "length rest1 < length (skip_ws s1)" using parser_consumes by blast
      with length_skip_ws [of s1] l1 have l2: "length rest1 < length s" by simp
      show ?thesis
      proof (cases "skip_ws rest1")
        case Nil
        with Inr x Cons l1 v y show ?thesis by (subst parse_object.simps) simp
      next
        case c2: (Cons c2 s2)
        then have "length s2 < length rest1" by (rule skip_ws_Cons_length)
        with l2 have l3: "length s2 < length s" by simp
        show ?thesis
        proof (cases "skip_ws s2")
          case Nil
          with Inr x Cons l1 v y c2 show ?thesis by (subst parse_object.simps) simp
        next
          case c3: (Cons c3 s3)
          then have "length s3 < length s2" by (rule skip_ws_Cons_length)
          with l3 have "length s3 < length s" by simp
          with Inr x Cons l1 v y c2 c3 show ?thesis by (subst parse_object.simps) simp
        qed
      qed
    qed
  qed
qed

end
